theory Spec2Isabelle
  imports Main "HOL-Library.Sublist"
begin

section \<open>Data model\<close>

text \<open>
  Modelled from the spec: \<open>types.ts\<close> (the declarations of \<open>Artifact\<close> and \<open>Session\<close>)
  is not among the sources. The fields are the ones \<open>index.tsx\<close> reads and writes, with
  the types the spec's data model gives them. The field \<open>id\<close> is written
  \<open>artifact_id\<close> and \<open>session_id\<close>. A \<open>styleName\<close> of \<open>None\<close> is JavaScript's
  \<open>undefined\<close>, which \<open>generatedStyles[i]\<close> yields out of range.
\<close>

datatype Status = Streaming | Complete | Error

record Artifact =
  artifact_id :: string
  styleName :: "string option"
  html :: string
  status :: Status

record Session =
  session_id :: string
  prompt :: string
  timestamp :: int
  artifacts :: "Artifact list"

text \<open>\<open>interface AppState\<close>: the unit of undo and redo.\<close>

record AppState =
  sessions :: "Session list"
  currentSessionIndex :: int

text \<open>The \<open>history\<close> state of the component: \<open>{past: AppState[], future: AppState[]}\<close>.\<close>

record History =
  past :: "AppState list"
  future :: "AppState list"

text \<open>
  The state of \<open>App\<close> that the operations below touch: the two \<open>useState\<close> cells of
  \<open>AppState\<close>, the history, the focused artifact (\<open>number | null\<close>), the loading flag
  and the text of the input. Each handler is a function on this state: it runs on the
  state of the latest render, one handler or continuation at a time.
\<close>

record App = AppState +
  history :: History
  focusedArtifactIndex :: "nat option"
  isLoading :: bool
  inputValue :: string

text \<open>
  The initial values of the \<open>useState\<close> cells, from the sessions read back from
  \<open>localStorage\<close> (the empty list when nothing was saved or the saved text does not
  parse).
\<close>

definition initApp :: "Session list \<Rightarrow> App" where
  "initApp saved =
     \<lparr>sessions = saved,
      currentSessionIndex = (if length saved > 0 then int (length saved) - 1 else - 1),
      history = \<lparr>past = [], future = []\<rparr>,
      focusedArtifactIndex = None,
      isLoading = False,
      inputValue = []\<rparr>"

section \<open>The undo/redo log\<close>

text \<open>The object literal \<open>{ sessions, currentSessionIndex }\<close>.\<close>

definition snapshot :: "App \<Rightarrow> AppState" where
  "snapshot app = \<lparr>sessions = sessions app, currentSessionIndex = currentSessionIndex app\<rparr>"

definition pushToHistory :: "App \<Rightarrow> App" where
  "pushToHistory app =
     app\<lparr>history := \<lparr>past = past (history app) @ [snapshot app], future = []\<rparr>\<rparr>"

definition handleUndo :: "App \<Rightarrow> App" where
  "handleUndo app =
     (if length (past (history app)) = 0 then app
      else
        let previous = last (past (history app));
            newPast = butlast (past (history app))
        in app\<lparr>history := \<lparr>past = newPast, future = snapshot app # future (history app)\<rparr>,
               sessions := sessions previous,
               currentSessionIndex := currentSessionIndex previous\<rparr>)"

definition handleRedo :: "App \<Rightarrow> App" where
  "handleRedo app =
     (if length (future (history app)) = 0 then app
      else
        let next = hd (future (history app));
            newFuture = tl (future (history app))
        in app\<lparr>history := \<lparr>past = past (history app) @ [snapshot app], future = newFuture\<rparr>,
               sessions := sessions next,
               currentSessionIndex := currentSessionIndex next\<rparr>)"

text \<open>A button press on one of the two history controls, and a sequence of them.\<close>

datatype HistoryOp = Undo | Redo

fun historyOp :: "HistoryOp \<Rightarrow> App \<Rightarrow> App" where
  "historyOp Undo app = handleUndo app"
| "historyOp Redo app = handleRedo app"

definition historyOps :: "HistoryOp list \<Rightarrow> App \<Rightarrow> App" where
  "historyOps ops app = fold historyOp ops app"

text \<open>
  The whole line of states that undo and redo walk along: the past, the live state, the
  future.
\<close>

definition timeline :: "App \<Rightarrow> AppState list" where
  "timeline app = past (history app) @ [snapshot app] @ future (history app)"

section \<open>The JSON-stream extractor\<close>

text \<open>
  \<open>String.prototype.indexOf\<close> for a one-character needle, searching from position
  \<open>i\<close>; \<open>None\<close> is the result \<open>-1\<close>.
\<close>

function indexOf :: "string \<Rightarrow> char \<Rightarrow> nat \<Rightarrow> nat option" where
  "indexOf s c i =
     (if i < length s then (if s ! i = c then Some i else indexOf s c (i + 1)) else None)"
  by pat_completeness auto
termination
  by (relation "measure (\<lambda>(s, c, i). length s - i)") auto

declare indexOf.simps [simp del]

text \<open>
  \<open>String.prototype.substring(a, b)\<close> on non-negative arguments: both are clamped to
  the length and swapped when \<open>a > b\<close>.
\<close>

definition substring :: "string \<Rightarrow> nat \<Rightarrow> nat \<Rightarrow> string" where
  "substring s a b =
     (let a' = min a (length s); b' = min b (length s);
          lo = min a' b'; hi = max a' b'
      in take (hi - lo) (drop lo s))"

text \<open>
  The inner \<open>for\<close> loop of \<open>parseJsonStream\<close>: from position \<open>i\<close> with the
  running \<open>braceCount\<close>, the first index after \<open>start\<close> at which the count is back
  at zero; \<open>None\<close> is \<open>end = -1\<close>.
\<close>

function findEndFrom :: "string \<Rightarrow> nat \<Rightarrow> nat \<Rightarrow> int \<Rightarrow> nat option" where
  "findEndFrom buffer start i braceCount =
     (if i < length buffer then
        let braceCount' =
              (if buffer ! i = CHR ''{'' then braceCount + 1
               else if buffer ! i = CHR ''}'' then braceCount - 1
               else braceCount)
        in if braceCount' = 0 \<and> i > start then Some i
           else findEndFrom buffer start (i + 1) braceCount'
      else None)"
  by pat_completeness auto
termination
  by (relation "measure (\<lambda>(buffer, start, i, braceCount). length buffer - i)") auto

declare findEndFrom.simps [simp del]

definition findEnd :: "string \<Rightarrow> nat \<Rightarrow> nat option" where
  "findEnd buffer start = findEndFrom buffer start start 0"

lemma indexOf_bounds: "indexOf s c i = Some k \<Longrightarrow> i \<le> k \<and> k < length s"
proof (induction s c i rule: indexOf.induct)
  case (1 s c i)
  then show ?case
    by (subst (asm) (2) indexOf.simps) (auto split: if_splits)
qed

lemma findEndFrom_bounds:
  "findEndFrom buffer start i bc = Some e \<Longrightarrow> i \<le> e \<and> start < e \<and> e < length buffer"
proof (induction buffer start i bc rule: findEndFrom.induct)
  case (1 buffer start i braceCount)
  then show ?case
    by (subst (asm) (2) findEndFrom.simps) (auto simp: Let_def split: if_splits)
qed

lemma findEnd_bounds: "findEnd buffer start = Some e \<Longrightarrow> start < e \<and> e < length buffer"
  using findEndFrom_bounds [of buffer start start 0 e] by (simp add: findEnd_def)

text \<open>
  The \<open>while (start !== -1)\<close> loop. \<open>JSON.parse\<close> is a parameter: \<open>parse s = None\<close>
  when it throws, which the \<open>catch\<close> turns into a retry from the next brace. The
  result is the values yielded, in order, and the buffer left for the next chunk.
\<close>

function scanBuffer :: "(string \<Rightarrow> 'v option) \<Rightarrow> string \<Rightarrow> nat option \<Rightarrow> 'v list \<times> string" where
  "scanBuffer parse buffer None = ([], buffer)"
| "scanBuffer parse buffer (Some start) =
     (case findEnd buffer start of
        None \<Rightarrow> ([], buffer)
      | Some e \<Rightarrow>
          (case parse (substring buffer start (e + 1)) of
             Some v \<Rightarrow>
               (case scanBuffer parse (drop (e + 1) buffer)
                       (indexOf (drop (e + 1) buffer) CHR ''{'' 0) of
                  (vs, b) \<Rightarrow> (v # vs, b))
           | None \<Rightarrow> scanBuffer parse buffer (indexOf buffer CHR ''{'' (start + 1))))"
  by pat_completeness auto
termination
proof (relation "inv_image (less_than <*lex*> less_than)
         (\<lambda>(parse, buffer, start).
            (length buffer, case start of None \<Rightarrow> 0 | Some s \<Rightarrow> length buffer - s))")
  show "wf (inv_image (less_than <*lex*> less_than)
         (\<lambda>(parse :: string \<Rightarrow> 'v option, buffer :: string, start :: nat option).
            (length buffer, case start of None \<Rightarrow> 0 | Some s \<Rightarrow> length buffer - s)))"
    by (intro wf_inv_image wf_lex_prod wf_less_than)
next
  fix parse :: "string \<Rightarrow> 'v option" and buffer start x2 x2a
  assume "findEnd buffer start = Some x2"
  then show "((parse, drop (x2 + 1) buffer, indexOf (drop (x2 + 1) buffer) CHR ''{'' 0),
              parse, buffer, Some start)
             \<in> inv_image (less_than <*lex*> less_than)
                 (\<lambda>(parse, buffer, start).
                    (length buffer, case start of None \<Rightarrow> 0 | Some s \<Rightarrow> length buffer - s))"
    using findEnd_bounds [of buffer start x2] by (simp, arith)
next
  fix parse :: "string \<Rightarrow> 'v option" and buffer start x2
  assume "findEnd buffer start = Some x2"
  then have "start < length buffer"
    using findEnd_bounds [of buffer start x2] by simp
  then show "((parse, buffer, indexOf buffer CHR ''{'' (start + 1)), parse, buffer, Some start)
             \<in> inv_image (less_than <*lex*> less_than)
                 (\<lambda>(parse, buffer, start).
                    (length buffer, case start of None \<Rightarrow> 0 | Some s \<Rightarrow> length buffer - s))"
    using indexOf_bounds [of buffer "CHR ''{''" "start + 1"]
    by (cases "indexOf buffer CHR ''{'' (start + 1)") auto
qed

text \<open>What one arriving chunk triggers once it is appended: the scan from the first brace.\<close>

definition scanAll :: "(string \<Rightarrow> 'v option) \<Rightarrow> string \<Rightarrow> 'v list \<times> string" where
  "scanAll parse buffer = scanBuffer parse buffer (indexOf buffer CHR ''{'' 0)"

text \<open>
  The \<open>for await\<close> loop over the chunks, with the buffer carried along. A chunk whose
  \<open>text\<close> is not a string (\<open>None\<close>) is skipped.
\<close>

fun streamLoop :: "(string \<Rightarrow> 'v option) \<Rightarrow> string \<Rightarrow> string option list \<Rightarrow> 'v list" where
  "streamLoop parse buffer [] = []"
| "streamLoop parse buffer (chunk # rest) =
     (case chunk of
        None \<Rightarrow> streamLoop parse buffer rest
      | Some text \<Rightarrow>
          (case scanAll parse (buffer @ text) of
             (vs, buffer') \<Rightarrow> vs @ streamLoop parse buffer' rest))"

definition parseJsonStream :: "(string \<Rightarrow> 'v option) \<Rightarrow> string option list \<Rightarrow> 'v list" where
  "parseJsonStream parse responseStream = streamLoop parse [] responseStream"


text \<open>The complete text of a stream: its string chunks, one after the other.\<close>

definition chunkTexts :: "string option list \<Rightarrow> string" where
  "chunkTexts chunks = concat (map (\<lambda>c. case c of None \<Rightarrow> [] | Some t \<Rightarrow> t) chunks)"

text \<open>
  The running brace depth after one more character, and the index at which a text read
  at depth \<open>d\<close> first comes back to depth zero: the inner loop, read off the text
  rather than off indices.
\<close>

definition bump :: "int \<Rightarrow> char \<Rightarrow> int" where
  "bump d c = (if c = CHR ''{'' then d + 1 else if c = CHR ''}'' then d - 1 else d)"

fun closeAt :: "string \<Rightarrow> int \<Rightarrow> nat option" where
  "closeAt [] d = None"
| "closeAt (c # cs) d =
     (if bump d c = 0 then Some 0 else
        (case closeAt cs (bump d c) of None \<Rightarrow> None | Some n \<Rightarrow> Some (Suc n)))"

section \<open>Session store: the state updates of \<open>App\<close>\<close>

text \<open>
  \<open>arr[i]\<close>: the element at an index inside the array, \<open>undefined\<close> (\<open>None\<close>)
  anywhere else. \<open>at\<close> takes the number that \<open>currentSessionIndex\<close> holds, which may
  be \<open>-1\<close>.
\<close>

definition atNat :: "'a list \<Rightarrow> nat \<Rightarrow> 'a option" where
  "atNat xs i = (if i < length xs then Some (xs ! i) else None)"

definition at :: "'a list \<Rightarrow> int \<Rightarrow> 'a option" where
  "at xs i = (if 0 \<le> i \<and> i < int (length xs) then Some (xs ! nat i) else None)"

text \<open>\<open>arr.map((x, i) => f(x, i))\<close>.\<close>

definition mapIndexed :: "('a \<Rightarrow> nat \<Rightarrow> 'b) \<Rightarrow> 'a list \<Rightarrow> 'b list" where
  "mapIndexed f xs = map (\<lambda>(i, x). f x i) (enumerate 0 xs)"

text \<open>
  \<open>trim\<close>, \<open>trimStart\<close>, \<open>trimEnd\<close>. Of JavaScript's white space, the characters
  that a \<open>char\<close> can hold: tab, line feed, vertical tab, form feed, carriage return,
  space and the no-break space.
\<close>

definition isWhiteSpace :: "char \<Rightarrow> bool" where
  "isWhiteSpace c = (of_char c \<in> {9, 10, 11, 12, 13, 32, 160 :: nat})"

definition trimStart :: "string \<Rightarrow> string" where
  "trimStart s = dropWhile isWhiteSpace s"

definition trimEnd :: "string \<Rightarrow> string" where
  "trimEnd s = rev (dropWhile isWhiteSpace (rev s))"

definition trim :: "string \<Rightarrow> string" where
  "trim s = trimEnd (trimStart s)"

text \<open>
  \<open>Array(3).fill(null).map((_, i) => ...)\<close>: the three placeholder artifacts of a new
  session; \<open>digit i\<close> is the decimal text of an index below ten.
\<close>

definition digit :: "nat \<Rightarrow> string" where
  "digit i = [char_of (48 + i)]"

definition placeholderArtifacts :: "string \<Rightarrow> Artifact list" where
  "placeholderArtifacts sessionId =
     map (\<lambda>i. \<lparr>artifact_id = sessionId @ ''_'' @ digit i,
               styleName = Some ''Analyzing request...'',
               html = [],
               status = Streaming\<rparr>) [0..<3]"

text \<open>
  \<open>handleSendMessage\<close> up to its first \<open>await\<close>. \<open>manualPrompt\<close> is the optional
  argument, and \<open>promptToUse\<close> is \<open>manualPrompt || inputValue\<close>; \<open>sessionId\<close> and
  \<open>baseTime\<close> are what \<open>generateId()\<close> and \<open>Date.now()\<close> return.
\<close>

definition promptToUse :: "string option \<Rightarrow> App \<Rightarrow> string" where
  "promptToUse manualPrompt app =
     (case manualPrompt of
        None \<Rightarrow> inputValue app
      | Some p \<Rightarrow> if p \<noteq> [] then p else inputValue app)"

definition handleSendMessage :: "string option \<Rightarrow> string \<Rightarrow> int \<Rightarrow> App \<Rightarrow> App" where
  "handleSendMessage manualPrompt sessionId baseTime app =
     (let trimmedInput = trim (promptToUse manualPrompt app)
      in if trimmedInput = [] \<or> isLoading app then app
         else
           let app1 = (if manualPrompt = None \<or> manualPrompt = Some []
                       then app\<lparr>inputValue := []\<rparr> else app);
               app2 = (pushToHistory app1)\<lparr>isLoading := True\<rparr>;
               newSession = \<lparr>session_id = sessionId,
                             prompt = trimmedInput,
                             timestamp = baseTime,
                             artifacts = placeholderArtifacts sessionId\<rparr>
           in app2\<lparr>sessions := sessions app2 @ [newSession],
                    currentSessionIndex := currentSessionIndex app2 + 1,
                    focusedArtifactIndex := None\<rparr>)"

text \<open>
  The updaters handed to \<open>setSessions\<close> after the awaits, each a function of the
  previous sessions: the style names, one streamed fragment, the end of a stream, and
  the \<open>catch\<close> of one artifact's generation.
\<close>

definition setStyleNames :: "string \<Rightarrow> string list \<Rightarrow> Session list \<Rightarrow> Session list" where
  "setStyleNames sessionId generatedStyles prev =
     map (\<lambda>s. if session_id s \<noteq> sessionId then s
              else s\<lparr>artifacts :=
                     mapIndexed (\<lambda>art i. art\<lparr>styleName := atNat generatedStyles i\<rparr>)
                       (artifacts s)\<rparr>) prev"

definition setArtifactHtml :: "string \<Rightarrow> string \<Rightarrow> string \<Rightarrow> Session list \<Rightarrow> Session list" where
  "setArtifactHtml sessionId artifactId accumulatedHtml prev =
     map (\<lambda>sess. if session_id sess = sessionId
                 then sess\<lparr>artifacts :=
                        map (\<lambda>art. if artifact_id art = artifactId
                                   then art\<lparr>html := accumulatedHtml\<rparr> else art)
                          (artifacts sess)\<rparr>
                 else sess) prev"

definition finishArtifact :: "string \<Rightarrow> string \<Rightarrow> string \<Rightarrow> Session list \<Rightarrow> Session list" where
  "finishArtifact sessionId artifactId finalHtml prev =
     map (\<lambda>sess. if session_id sess = sessionId
                 then sess\<lparr>artifacts :=
                        map (\<lambda>art. if artifact_id art = artifactId
                                   then art\<lparr>html := finalHtml,
                                            status := (if finalHtml \<noteq> [] then Complete else Error)\<rparr>
                                   else art)
                          (artifacts sess)\<rparr>
                 else sess) prev"

definition errorHtml :: "string \<Rightarrow> string" where
  \<open>errorHtml message =
     ''<div style="color: #ff6b6b; padding: 20px;">Error: '' @ message @ ''</div>''\<close>

definition failArtifact :: "string \<Rightarrow> string \<Rightarrow> string \<Rightarrow> Session list \<Rightarrow> Session list" where
  "failArtifact sessionId artifactId message prev =
     map (\<lambda>sess. if session_id sess = sessionId
                 then sess\<lparr>artifacts :=
                        map (\<lambda>art. if artifact_id art = artifactId
                                   then art\<lparr>html := errorHtml message, status := Error\<rparr>
                                   else art)
                          (artifacts sess)\<rparr>
                 else sess) prev"

text \<open>The clean-up of the accumulated text when a stream ends: trim, then strip a fence.\<close>

definition stripFences :: "string \<Rightarrow> string" where
  "stripFences accumulatedHtml =
     (let f0 = trim accumulatedHtml;
          f1 = (if prefix ''```html'' f0 then trimStart (drop 7 f0) else f0);
          f2 = (if prefix ''```'' f1 then trimStart (drop 3 f1) else f1);
          f3 = (if suffix ''```'' f2 then trimEnd (take (length f2 - 3) f2) else f2)
      in f3)"

text \<open>\<open>applyVariation\<close>: the record comes before the test of the focus.\<close>

definition applyVariation :: "string \<Rightarrow> App \<Rightarrow> App" where
  "applyVariation newHtml app =
     (let app1 = pushToHistory app
      in case focusedArtifactIndex app1 of
           None \<Rightarrow> app1
         | Some focused \<Rightarrow>
             app1\<lparr>sessions :=
               mapIndexed (\<lambda>sess i.
                   if int i = currentSessionIndex app1
                   then sess\<lparr>artifacts :=
                          mapIndexed (\<lambda>art j.
                              if j = focused then art\<lparr>html := newHtml, status := Complete\<rparr>
                              else art) (artifacts sess)\<rparr>
                   else sess) (sessions app1)\<rparr>)"

text \<open>
  \<open>handleGenerateImages\<close>: its start (guard, record, loading flag), and the updater it
  hands to \<open>setSessions\<close> once the images are in, which uses the two indices captured
  when the handler started.
\<close>

definition handleGenerateImages :: "App \<Rightarrow> App" where
  "handleGenerateImages app =
     (case at (sessions app) (currentSessionIndex app) of
        None \<Rightarrow> app
      | Some currentSession \<Rightarrow>
          (case focusedArtifactIndex app of
             None \<Rightarrow> app
           | Some focused \<Rightarrow> (pushToHistory app)\<lparr>isLoading := True\<rparr>))"

definition setImagesHtml :: "int \<Rightarrow> nat \<Rightarrow> string \<Rightarrow> Session list \<Rightarrow> Session list" where
  "setImagesHtml sessionIndex focused newHtml prev =
     mapIndexed (\<lambda>sess i.
         if int i = sessionIndex
         then sess\<lparr>artifacts :=
                mapIndexed (\<lambda>art j. if j = focused then art\<lparr>html := newHtml\<rparr> else art)
                  (artifacts sess)\<rparr>
         else sess) prev"

definition nextItem :: "App \<Rightarrow> App" where
  "nextItem app =
     (case focusedArtifactIndex app of
        Some focused \<Rightarrow>
          (if focused < 2 then app\<lparr>focusedArtifactIndex := Some (focused + 1)\<rparr> else app)
      | None \<Rightarrow>
          (if currentSessionIndex app < int (length (sessions app)) - 1
           then (pushToHistory app)\<lparr>currentSessionIndex := currentSessionIndex app + 1\<rparr>
           else app))"

definition prevItem :: "App \<Rightarrow> App" where
  "prevItem app =
     (case focusedArtifactIndex app of
        Some focused \<Rightarrow>
          (if focused > 0 then app\<lparr>focusedArtifactIndex := Some (focused - 1)\<rparr> else app)
      | None \<Rightarrow>
          (if currentSessionIndex app > 0
           then (pushToHistory app)\<lparr>currentSessionIndex := currentSessionIndex app - 1\<rparr>
           else app))"

text \<open>
  Everything that can happen to the state: the user's actions and the continuations of
  the asynchronous handlers, each atomic, in any order. The payloads of the
  continuations (identifiers, texts, indices) are arbitrary.
\<close>

datatype Action =
    SendMessage "string option" string int
  | StyleNames string "string list"
  | HtmlChunk string string string
  | StreamEnd string string string
  | GenerationFailed string string string
  | ApplyVariation string
  | GenerateImages
  | ImagesReady int nat string
  | SetLoading bool
  | NextItem
  | PrevItem
  | UndoPressed
  | RedoPressed
  | FocusArtifact "nat option"
  | InputChange string

fun step :: "Action \<Rightarrow> App \<Rightarrow> App" where
  "step (SendMessage manualPrompt sessionId baseTime) app =
     handleSendMessage manualPrompt sessionId baseTime app"
| "step (StyleNames sessionId generatedStyles) app =
     app\<lparr>sessions := setStyleNames sessionId generatedStyles (sessions app)\<rparr>"
| "step (HtmlChunk sessionId artifactId accumulatedHtml) app =
     app\<lparr>sessions := setArtifactHtml sessionId artifactId accumulatedHtml (sessions app)\<rparr>"
| "step (StreamEnd sessionId artifactId accumulatedHtml) app =
     app\<lparr>sessions :=
           finishArtifact sessionId artifactId (stripFences accumulatedHtml) (sessions app)\<rparr>"
| "step (GenerationFailed sessionId artifactId message) app =
     app\<lparr>sessions := failArtifact sessionId artifactId message (sessions app)\<rparr>"
| "step (ApplyVariation newHtml) app = applyVariation newHtml app"
| "step GenerateImages app = handleGenerateImages app"
| "step (ImagesReady sessionIndex focused newHtml) app =
     app\<lparr>sessions := setImagesHtml sessionIndex focused newHtml (sessions app)\<rparr>"
| "step (SetLoading b) app = app\<lparr>isLoading := b\<rparr>"
| "step NextItem app = nextItem app"
| "step PrevItem app = prevItem app"
| "step UndoPressed app = handleUndo app"
| "step RedoPressed app = handleRedo app"
| "step (FocusArtifact f) app = app\<lparr>focusedArtifactIndex := f\<rparr>"
| "step (InputChange v) app = app\<lparr>inputValue := v\<rparr>"

definition run :: "Action list \<Rightarrow> App \<Rightarrow> App" where
  "run actions app = fold step actions app"

text \<open>The two invariants of the data model, over the live state and every snapshot.\<close>

definition artifactCounts :: "Session list \<Rightarrow> nat list" where
  "artifactCounts ss = map (\<lambda>s. length (artifacts s)) ss"

definition threeArtifacts :: "Session list \<Rightarrow> bool" where
  "threeArtifacts ss = list_all (\<lambda>n. n = 3) (artifactCounts ss)"

definition allThreeArtifacts :: "App \<Rightarrow> bool" where
  "allThreeArtifacts app =
     (threeArtifacts (sessions app)
      \<and> list_all (\<lambda>e. threeArtifacts (sessions e))
           (past (history app) @ future (history app)))"

definition indexValid :: "Session list \<Rightarrow> int \<Rightarrow> bool" where
  "indexValid ss i = (- 1 \<le> i \<and> i < int (length ss))"

definition allIndexValid :: "App \<Rightarrow> bool" where
  "allIndexValid app =
     (indexValid (sessions app) (currentSessionIndex app)
      \<and> list_all (\<lambda>e. indexValid (sessions e) (currentSessionIndex e))
           (past (history app) @ future (history app)))"

text \<open>A property of snapshots that holds of the live state and of every history entry.\<close>

definition holdsEverywhere :: "(AppState \<Rightarrow> bool) \<Rightarrow> App \<Rightarrow> bool" where
  "holdsEverywhere Q app =
     (Q (snapshot app) \<and> list_all Q (past (history app) @ future (history app)))"

text \<open>The actions other than a new prompt, undo and redo.\<close>

fun keepsSessions :: "Action \<Rightarrow> bool" where
  "keepsSessions (SendMessage manualPrompt sessionId baseTime) = False"
| "keepsSessions UndoPressed = False"
| "keepsSessions RedoPressed = False"
| "keepsSessions a = True"

section \<open>Style names from the naming response\<close>

text \<open>\<open>String.prototype.lastIndexOf\<close> for a one-character needle.\<close>

definition lastIndexOf :: "string \<Rightarrow> char \<Rightarrow> nat option" where
  "lastIndexOf s c =
     (case indexOf (rev s) c 0 of None \<Rightarrow> None | Some k \<Rightarrow> Some (length s - 1 - k))"

text \<open>
  \<open>styleText.match(...)\<close> with the regular expression of the source: an opening
  bracket, any characters (line breaks included), a closing bracket. The match starts at
  the leftmost \<open>[\<close> that has a \<open>]\<close> after it and, the star being greedy, runs
  to the last \<open>]\<close> of the text. The result is \<open>jsonMatch[0]\<close>, or \<open>None\<close> for
  \<open>null\<close>.
\<close>

definition matchBracketed :: "string \<Rightarrow> string option" where
  "matchBracketed styleText =
     (case indexOf styleText CHR ''['' 0 of
        None \<Rightarrow> None
      | Some i \<Rightarrow>
          (case lastIndexOf styleText CHR '']'' of
             None \<Rightarrow> None
           | Some j \<Rightarrow> if i < j then Some (substring styleText i (j + 1)) else None))"

definition fallbackStyles :: "string list" where
  "fallbackStyles =
     [''Primary Pigment Gridwork'', ''Tactile Risograph Layering'', ''Kinetic Silhouette Balance'']"

text \<open>The \<open>styleResponse.text || '[]'\<close> of \<open>handleSendMessage\<close>: an undefined or empty text reads as \<open>[]\<close>.\<close>

definition styleTextOf :: "string option \<Rightarrow> string" where
  "styleTextOf responseText =
     (case responseText of None \<Rightarrow> ''[]'' | Some t \<Rightarrow> if t = [] then ''[]'' else t)"

text \<open>
  The style names that \<open>handleSendMessage\<close> derives from the response of the naming
  call. \<open>responseText\<close> is \<open>styleResponse.text\<close> (\<open>None\<close> when undefined).
  \<open>JSON.parse\<close> is a parameter, at the declared type \<open>string[]\<close> of
  \<open>generatedStyles\<close>: \<open>parseJson m = None\<close> when it throws.
\<close>

definition extractStyles :: "(string \<Rightarrow> string list option) \<Rightarrow> string option \<Rightarrow> string list" where
  "extractStyles parseJson responseText =
     (let styleText = styleTextOf responseText;
          jsonMatch = matchBracketed styleText;
          parsed = (case jsonMatch of
                      None \<Rightarrow> []
                    | Some m \<Rightarrow> (case parseJson m of None \<Rightarrow> [] | Some xs \<Rightarrow> xs));
          generatedStyles = (if length parsed < 3 then fallbackStyles else parsed)
      in take 3 generatedStyles)"

text \<open>A session and a state to try the operations on.\<close>

definition demoSession :: Session where
  "demoSession =
     \<lparr>session_id = ''s1'', prompt = ''Login form'', timestamp = 1,
      artifacts = placeholderArtifacts ''s1''\<rparr>"

definition demoApp :: App where
  "demoApp = (initApp [demoSession])\<lparr>focusedArtifactIndex := Some 0\<rparr>"

section \<open>The three concurrent artifact generations\<close>












section \<open>Export: \<open>wrapHtml\<close> and the single-artifact download\<close>

text \<open>\<open>String.prototype.includes\<close> (written \<open>includes_str\<close>): the needle occurs somewhere in the
  string.\<close>

fun includes_str :: "string \<Rightarrow> string \<Rightarrow> bool" where
  "includes_str [] sub = (sub = [])"
| "includes_str (c # cs) sub = (prefix sub (c # cs) \<or> includes_str cs sub)"










section \<open>The store: sessions and snapshots as references\<close>

text \<open>
  In JavaScript the sessions array, each session, each artifacts array and each artifact
  is an object behind a reference, and \<open>{ sessions, currentSessionIndex }\<close> stores the
  reference of the sessions array next to a number. The store makes this explicit: a
  heap of objects, addressed by position, in which \<open>alloc\<close> is the only way to obtain an
  address.
\<close>

type_synonym addr = nat

datatype Obj =
    ArtifactObj Artifact
  | SessionObj string string int addr
  | ArrayObj "addr list"

definition alloc :: "Obj list \<Rightarrow> Obj \<Rightarrow> Obj list \<times> addr" where
  "alloc h x = (h @ [x], length h)"

record Store =
  heap :: "Obj list"
  sessionsRef :: addr
  indexCell :: int
  pastEntries :: "(addr \<times> int) list"
  futureEntries :: "(addr \<times> int) list"
  focusedCell :: "nat option"

text \<open>Following the references: the sessions that an address stands for.\<close>

definition readArtifact :: "Obj list \<Rightarrow> addr \<Rightarrow> Artifact option" where
  "readArtifact h a = (case atNat h a of Some (ArtifactObj art) \<Rightarrow> Some art | _ \<Rightarrow> None)"

definition readArtifacts :: "Obj list \<Rightarrow> addr \<Rightarrow> Artifact list option" where
  "readArtifacts h a =
     (case atNat h a of
        Some (ArrayObj refs) \<Rightarrow> those (map (readArtifact h) refs)
      | _ \<Rightarrow> None)"

definition readSession :: "Obj list \<Rightarrow> addr \<Rightarrow> Session option" where
  "readSession h a =
     (case atNat h a of
        Some (SessionObj sid p ts arr) \<Rightarrow>
          (case readArtifacts h arr of
             Some arts \<Rightarrow>
               Some \<lparr>session_id = sid, prompt = p, timestamp = ts, artifacts = arts\<rparr>
           | None \<Rightarrow> None)
      | _ \<Rightarrow> None)"

definition readSessions :: "Obj list \<Rightarrow> addr \<Rightarrow> Session list option" where
  "readSessions h a =
     (case atNat h a of
        Some (ArrayObj refs) \<Rightarrow> those (map (readSession h) refs)
      | _ \<Rightarrow> None)"

text \<open>
  \<open>artifacts.map((art, j) => ...)\<close> on references: the callback \<open>g\<close> answers
  \<open>Some art'\<close> where the source builds a new object (\<open>{ ...art, html }\<close>) and \<open>None\<close>
  where it returns \<open>art\<close> itself; the result is a new array.
\<close>

fun mapArtifactRefs ::
  "(Artifact \<Rightarrow> nat \<Rightarrow> Artifact option) \<Rightarrow> Obj list \<Rightarrow> nat \<Rightarrow> addr list
     \<Rightarrow> Obj list \<times> addr list" where
  "mapArtifactRefs g h j [] = (h, [])"
| "mapArtifactRefs g h j (r # rs) =
     (let (h1, r') =
            (case readArtifact h r of
               None \<Rightarrow> (h, r)
             | Some art \<Rightarrow>
                 (case g art j of None \<Rightarrow> (h, r) | Some art' \<Rightarrow> alloc h (ArtifactObj art')));
          (h2, rs') = mapArtifactRefs g h1 (j + 1) rs
      in (h2, r' # rs'))"

definition mapArtifactsArray ::
  "(Artifact \<Rightarrow> nat \<Rightarrow> Artifact option) \<Rightarrow> Obj list \<Rightarrow> addr \<Rightarrow> Obj list \<times> addr" where
  "mapArtifactsArray g h a =
     (case atNat h a of
        Some (ArrayObj refs) \<Rightarrow>
          (let (h1, refs') = mapArtifactRefs g h 0 refs in alloc h1 (ArrayObj refs'))
      | _ \<Rightarrow> (h, a))"

text \<open>
  \<open>prev.map((sess, i) => ...)\<close> on references: \<open>sel\<close> answers \<open>Some g\<close> for a session
  that the source rebuilds as \<open>{ ...sess, artifacts: sess.artifacts.map(g) }\<close> and
  \<open>None\<close> for one it returns as it is.
\<close>

fun mapSessionRefs ::
  "(string \<Rightarrow> nat \<Rightarrow> (Artifact \<Rightarrow> nat \<Rightarrow> Artifact option) option) \<Rightarrow> Obj list \<Rightarrow> nat
     \<Rightarrow> addr list \<Rightarrow> Obj list \<times> addr list" where
  "mapSessionRefs sel h i [] = (h, [])"
| "mapSessionRefs sel h i (r # rs) =
     (let (h1, r') =
            (case atNat h r of
               Some (SessionObj sid p ts arr) \<Rightarrow>
                 (case sel sid i of
                    None \<Rightarrow> (h, r)
                  | Some g \<Rightarrow>
                      (let (h0, arr') = mapArtifactsArray g h arr
                       in alloc h0 (SessionObj sid p ts arr')))
             | _ \<Rightarrow> (h, r));
          (h2, rs') = mapSessionRefs sel h1 (i + 1) rs
      in (h2, r' # rs'))"

text \<open>\<open>setSessions(prev => prev.map(...))\<close>: the state cell receives the new array.\<close>

definition setSessionsMap ::
  "(string \<Rightarrow> nat \<Rightarrow> (Artifact \<Rightarrow> nat \<Rightarrow> Artifact option) option) \<Rightarrow> Store \<Rightarrow> Store" where
  "setSessionsMap sel st =
     (case atNat (heap st) (sessionsRef st) of
        Some (ArrayObj refs) \<Rightarrow>
          (let (h1, refs') = mapSessionRefs sel (heap st) 0 refs;
               (h2, a) = alloc h1 (ArrayObj refs')
           in st\<lparr>heap := h2, sessionsRef := a\<rparr>)
      | _ \<Rightarrow> st)"

text \<open>The callbacks of the source's updaters.\<close>

definition selHtmlChunk ::
  "string \<Rightarrow> string \<Rightarrow> string \<Rightarrow> string \<Rightarrow> nat \<Rightarrow> (Artifact \<Rightarrow> nat \<Rightarrow> Artifact option) option" where
  "selHtmlChunk sessionId artifactId accumulatedHtml sid i =
     (if sid = sessionId
      then Some (\<lambda>art j. if artifact_id art = artifactId
                         then Some (art\<lparr>html := accumulatedHtml\<rparr>) else None)
      else None)"

definition selFinish ::
  "string \<Rightarrow> string \<Rightarrow> string \<Rightarrow> string \<Rightarrow> nat \<Rightarrow> (Artifact \<Rightarrow> nat \<Rightarrow> Artifact option) option" where
  "selFinish sessionId artifactId finalHtml sid i =
     (if sid = sessionId
      then Some (\<lambda>art j. if artifact_id art = artifactId
                         then Some (art\<lparr>html := finalHtml,
                                        status := (if finalHtml \<noteq> [] then Complete else Error)\<rparr>)
                         else None)
      else None)"

definition selFail ::
  "string \<Rightarrow> string \<Rightarrow> string \<Rightarrow> string \<Rightarrow> nat \<Rightarrow> (Artifact \<Rightarrow> nat \<Rightarrow> Artifact option) option" where
  "selFail sessionId artifactId message sid i =
     (if sid = sessionId
      then Some (\<lambda>art j. if artifact_id art = artifactId
                         then Some (art\<lparr>html := errorHtml message, status := Error\<rparr>)
                         else None)
      else None)"

definition selStyleNames ::
  "string \<Rightarrow> string list \<Rightarrow> string \<Rightarrow> nat \<Rightarrow> (Artifact \<Rightarrow> nat \<Rightarrow> Artifact option) option" where
  "selStyleNames sessionId generatedStyles sid i =
     (if sid \<noteq> sessionId then None
      else Some (\<lambda>art j. Some (art\<lparr>styleName := atNat generatedStyles j\<rparr>)))"

definition selVariation ::
  "int \<Rightarrow> nat \<Rightarrow> string \<Rightarrow> string \<Rightarrow> nat \<Rightarrow> (Artifact \<Rightarrow> nat \<Rightarrow> Artifact option) option" where
  "selVariation sessionIndex focused newHtml sid i =
     (if int i = sessionIndex
      then Some (\<lambda>art j. if j = focused
                         then Some (art\<lparr>html := newHtml, status := Complete\<rparr>) else None)
      else None)"

definition selImages ::
  "int \<Rightarrow> nat \<Rightarrow> string \<Rightarrow> string \<Rightarrow> nat \<Rightarrow> (Artifact \<Rightarrow> nat \<Rightarrow> Artifact option) option" where
  "selImages sessionIndex focused newHtml sid i =
     (if int i = sessionIndex
      then Some (\<lambda>art j. if j = focused then Some (art\<lparr>html := newHtml\<rparr>) else None)
      else None)"

text \<open>\<open>pushToHistory\<close> on the store: the entry holds the reference that the state cell holds.\<close>

definition pushToHistoryStore :: "Store \<Rightarrow> Store" where
  "pushToHistoryStore st =
     st\<lparr>pastEntries := pastEntries st @ [(sessionsRef st, indexCell st)],
        futureEntries := []\<rparr>"

definition applyVariationStore :: "string \<Rightarrow> Store \<Rightarrow> Store" where
  "applyVariationStore newHtml st =
     (let st1 = pushToHistoryStore st
      in case focusedCell st1 of
           None \<Rightarrow> st1
         | Some focused \<Rightarrow> setSessionsMap (selVariation (indexCell st1) focused newHtml) st1)"

text \<open>The operations that change sessions after a snapshot was taken.\<close>

datatype StoreOp =
    OpHtmlChunk string string string
  | OpStreamEnd string string string
  | OpFailed string string string
  | OpStyleNames string "string list"
  | OpApplyVariation string
  | OpImagesReady int nat string

fun storeStep :: "StoreOp \<Rightarrow> Store \<Rightarrow> Store" where
  "storeStep (OpHtmlChunk sessionId artifactId accumulatedHtml) st =
     setSessionsMap (selHtmlChunk sessionId artifactId accumulatedHtml) st"
| "storeStep (OpStreamEnd sessionId artifactId accumulatedHtml) st =
     setSessionsMap (selFinish sessionId artifactId (stripFences accumulatedHtml)) st"
| "storeStep (OpFailed sessionId artifactId message) st =
     setSessionsMap (selFail sessionId artifactId message) st"
| "storeStep (OpStyleNames sessionId generatedStyles) st =
     setSessionsMap (selStyleNames sessionId generatedStyles) st"
| "storeStep (OpApplyVariation newHtml) st = applyVariationStore newHtml st"
| "storeStep (OpImagesReady sessionIndex focused newHtml) st =
     setSessionsMap (selImages sessionIndex focused newHtml) st"

definition storeRun :: "StoreOp list \<Rightarrow> Store \<Rightarrow> Store" where
  "storeRun ops st = fold storeStep ops st"

text \<open>
  What the two maps compute, on values: the callback's new object where it builds one,
  the old one elsewhere.
\<close>

definition mapArtsFrom :: "(Artifact \<Rightarrow> nat \<Rightarrow> Artifact option) \<Rightarrow> nat \<Rightarrow> Artifact list \<Rightarrow> Artifact list" where
  "mapArtsFrom g j arts =
     map (\<lambda>(k, art). case g art k of Some art' \<Rightarrow> art' | None \<Rightarrow> art) (enumerate j arts)"

definition mapSessionsFrom ::
  "(string \<Rightarrow> nat \<Rightarrow> (Artifact \<Rightarrow> nat \<Rightarrow> Artifact option) option) \<Rightarrow> nat \<Rightarrow> Session list
     \<Rightarrow> Session list" where
  "mapSessionsFrom sel i ss =
     map (\<lambda>(k, s). case sel (session_id s) k of
                     Some g \<Rightarrow> s\<lparr>artifacts := mapArtsFrom g 0 (artifacts s)\<rparr>
                   | None \<Rightarrow> s) (enumerate i ss)"

text \<open>The same operations on values, as the session store above has them.\<close>

fun valueStep :: "StoreOp \<Rightarrow> int \<Rightarrow> nat option \<Rightarrow> Session list \<Rightarrow> Session list" where
  "valueStep (OpHtmlChunk sessionId artifactId accumulatedHtml) idx foc ss =
     setArtifactHtml sessionId artifactId accumulatedHtml ss"
| "valueStep (OpStreamEnd sessionId artifactId accumulatedHtml) idx foc ss =
     finishArtifact sessionId artifactId (stripFences accumulatedHtml) ss"
| "valueStep (OpFailed sessionId artifactId message) idx foc ss =
     failArtifact sessionId artifactId message ss"
| "valueStep (OpStyleNames sessionId generatedStyles) idx foc ss =
     setStyleNames sessionId generatedStyles ss"
| "valueStep (OpApplyVariation newHtml) idx foc ss =
     (case foc of
        None \<Rightarrow> ss
      | Some focused \<Rightarrow>
          mapIndexed (\<lambda>sess i.
              if int i = idx
              then sess\<lparr>artifacts :=
                     mapIndexed (\<lambda>art j.
                         if j = focused then art\<lparr>html := newHtml, status := Complete\<rparr>
                         else art) (artifacts sess)\<rparr>
              else sess) ss)"
| "valueStep (OpImagesReady sessionIndex focused newHtml) idx foc ss =
     setImagesHtml sessionIndex focused newHtml ss"

text \<open>
  The addresses that a sessions array reaches (itself, its sessions, their artifacts
  arrays and artifacts), and what a deep copy would be: the same sessions, read through
  addresses of which none is shared.
\<close>

definition reachable :: "Obj list \<Rightarrow> addr \<Rightarrow> addr list" where
  "reachable h a =
     a # (case atNat h a of
            Some (ArrayObj refs) \<Rightarrow>
              refs @ concat (map (\<lambda>r. case atNat h r of
                                        Some (SessionObj sid p ts arr) \<Rightarrow>
                                          arr # (case atNat h arr of
                                                   Some (ArrayObj ars) \<Rightarrow> ars
                                                 | _ \<Rightarrow> [])
                                      | _ \<Rightarrow> []) refs)
          | _ \<Rightarrow> [])"

definition independentCopy :: "Obj list \<Rightarrow> addr \<Rightarrow> addr \<Rightarrow> bool" where
  "independentCopy h a b =
     (readSessions h a = readSessions h b
      \<and> list_all (\<lambda>x. x \<notin> set (reachable h b)) (reachable h a))"

text \<open>A store to try: one session with its three placeholder artifacts, the first focused.\<close>

definition demoStore :: Store where
  "demoStore =
     \<lparr>heap = map ArtifactObj (placeholderArtifacts ''s1'')
             @ [ArrayObj [0, 1, 2], SessionObj ''s1'' ''Login form'' 1 3, ArrayObj [4]],
      sessionsRef = 5,
      indexCell = 0,
      pastEntries = [],
      futureEntries = [],
      focusedCell = Some 0\<rparr>"

definition demoOps :: "StoreOp list" where
  "demoOps =
     [OpHtmlChunk ''s1'' ''s1_0'' ''<p>'', OpStyleNames ''s1'' [''A'', ''B'', ''C''],
      OpStreamEnd ''s1'' ''s1_0'' ''<p>hi</p>'', OpFailed ''s1'' ''s1_1'' ''quota'',
      OpApplyVariation ''<b>x</b>'', OpImagesReady 0 0 ''<img>'']"

section \<open>Properties of the undo/redo log\<close>

lemma AppState_eta [simp]:
  "\<lparr>sessions = sessions p, currentSessionIndex = currentSessionIndex p\<rparr> = (p :: AppState)"
  by (cases p) simp

lemma History_eta [simp]: "\<lparr>past = past h, future = future h\<rparr> = (h :: History)"
  by (cases h) simp

lemma handleUndo_empty: "past (history app) = [] \<Longrightarrow> handleUndo app = app"
  by (simp add: handleUndo_def)

lemma handleRedo_empty: "future (history app) = [] \<Longrightarrow> handleRedo app = app"
  by (simp add: handleRedo_def)

lemma redo_undo:
  assumes "past (history app) \<noteq> []"
  shows "handleRedo (handleUndo app) = app"
proof -
  have "butlast (past (history app)) @ [last (past (history app))] = past (history app)"
    using assms by simp
  then have "app\<lparr>history := \<lparr>past = butlast (past (history app)) @ [last (past (history app))],
                          future = future (history app)\<rparr>\<rparr> = app"
    by simp
  then show ?thesis
    using assms by (simp add: handleUndo_def handleRedo_def snapshot_def Let_def)
qed

lemma undo_redo:
  assumes "future (history app) \<noteq> []"
  shows "handleUndo (handleRedo app) = app"
proof -
  have "hd (future (history app)) # tl (future (history app)) = future (history app)"
    using assms by simp
  then have "app\<lparr>history := \<lparr>past = past (history app),
                          future = hd (future (history app)) # tl (future (history app))\<rparr>\<rparr> = app"
    by simp
  then show ?thesis
    using assms by (simp add: handleUndo_def handleRedo_def snapshot_def Let_def)
qed

lemma timeline_undo: "timeline (handleUndo app) = timeline app"
proof (cases "past (history app) = []")
  case True
  then show ?thesis by (simp add: handleUndo_empty)
next
  case False
  then have "butlast (past (history app)) @ [last (past (history app))] = past (history app)"
    by simp
  then have "butlast (past (history app)) @ last (past (history app)) # xs
             = past (history app) @ xs" for xs
    by (metis append_Cons append_Nil append_assoc)
  with False show ?thesis
    by (simp add: timeline_def handleUndo_def snapshot_def Let_def)
qed

lemma timeline_redo: "timeline (handleRedo app) = timeline app"
proof (cases "future (history app) = []")
  case True
  then show ?thesis by (simp add: handleRedo_empty)
next
  case False
  then have "hd (future (history app)) # tl (future (history app)) = future (history app)"
    by simp
  with False show ?thesis
    by (simp add: timeline_def handleRedo_def snapshot_def Let_def)
qed

lemma timeline_historyOps: "timeline (historyOps ops app) = timeline app"
  unfolding historyOps_def
proof (induction ops arbitrary: app)
  case Nil
  then show ?case by simp
next
  case (Cons a ops)
  then show ?case by (cases a) (simp_all add: timeline_undo timeline_redo)
qed

lemma undo_frame:
  "focusedArtifactIndex (handleUndo app) = focusedArtifactIndex app
   \<and> isLoading (handleUndo app) = isLoading app
   \<and> inputValue (handleUndo app) = inputValue app"
  by (simp add: handleUndo_def Let_def)

lemma redo_frame:
  "focusedArtifactIndex (handleRedo app) = focusedArtifactIndex app
   \<and> isLoading (handleRedo app) = isLoading app
   \<and> inputValue (handleRedo app) = inputValue app"
  by (simp add: handleRedo_def Let_def)

lemma historyOps_frame:
  "focusedArtifactIndex (historyOps ops app) = focusedArtifactIndex app
   \<and> isLoading (historyOps ops app) = isLoading app
   \<and> inputValue (historyOps ops app) = inputValue app"
  unfolding historyOps_def
proof (induction ops arbitrary: app)
  case Nil
  then show ?case by simp
next
  case (Cons a ops)
  then show ?case by (cases a) (simp_all add: undo_frame redo_frame)
qed

text \<open>A state is determined by its timeline, the depth of its past and the two cursors
  that the history does not hold.\<close>

lemma app_eq_from_timeline:
  assumes t: "timeline a = timeline b"
    and l: "length (past (history a)) = length (past (history b))"
    and f: "focusedArtifactIndex a = focusedArtifactIndex b"
    and g: "isLoading a = isLoading b"
    and i: "inputValue a = inputValue b"
  shows "a = (b :: App)"
proof -
  from t l have p: "past (history a) = past (history b)"
    and r: "snapshot a # future (history a) = snapshot b # future (history b)"
    by (simp_all add: timeline_def)
  from r have s: "snapshot a = snapshot b" and u: "future (history a) = future (history b)"
    by simp_all
  from s have "sessions a = sessions b" "currentSessionIndex a = currentSessionIndex b"
    by (simp_all add: snapshot_def)
  moreover from p u have "history a = history b"
    by (simp add: History.equality)
  ultimately show ?thesis
    using f g i by (simp add: App.equality)
qed

lemma undo_n_redo_n:
  "n \<le> length (past (history app)) \<Longrightarrow> (handleRedo ^^ n) ((handleUndo ^^ n) app) = app"
proof (induction n arbitrary: app)
  case 0
  then show ?case by simp
next
  case (Suc n)
  then have ne: "past (history app) \<noteq> []" by auto
  have len: "length (past (history (handleUndo app))) = length (past (history app)) - 1"
    using ne by (simp add: handleUndo_def Let_def)
  have "(handleRedo ^^ Suc n) ((handleUndo ^^ Suc n) app)
        = handleRedo ((handleRedo ^^ n) ((handleUndo ^^ n) (handleUndo app)))"
    by (simp add: funpow_swap1)
  also have "\<dots> = handleRedo (handleUndo app)"
    using Suc.IH [of "handleUndo app"] Suc.prems len by simp
  also have "\<dots> = app" using ne by (rule redo_undo)
  finally show ?case .
qed

text \<open>
  C9. Calling undo with an empty past, or redo with an empty future, changes nothing:
  the sessions, the current session index and both history stacks (indeed the whole
  state) stay as they were.
\<close>

theorem undo_redo_empty_noop:
  "(past (history app) = [] \<longrightarrow> handleUndo app = app)
   \<and> (future (history app) = [] \<longrightarrow> handleRedo app = app)"
  by (simp add: handleUndo_empty handleRedo_empty)

text \<open>
  C2. Recording and then undoing restores the sessions and the current session index that
  were live before the record, also when the live state was replaced in between (the
  action's own effect); undo then redo, and redo then undo, give back the very state they
  started from, stacks included; \<open>n\<close> undos followed by \<open>n\<close> redos do so at any depth
  \<open>n\<close> the past allows; and any interleaving of undos and redos walks along one unchanged
  timeline, so that it restores the state exactly whenever it ends at the depth it
  started from.
\<close>

theorem undo_redo_empty_noop_witness:
  "past (history (initApp [])) = [] \<and> handleUndo (initApp []) = initApp []
   \<and> future (history (initApp [])) = [] \<and> handleRedo (initApp []) = initApp []"
  using undo_redo_empty_noop [of "initApp []"] by (simp add: initApp_def)

theorem history_round_trip:
  "sessions (handleUndo (pushToHistory app)) = sessions app
   \<and> currentSessionIndex (handleUndo (pushToHistory app)) = currentSessionIndex app
   \<and> sessions (handleUndo ((pushToHistory app)\<lparr>sessions := ss, currentSessionIndex := i\<rparr>))
       = sessions app
   \<and> currentSessionIndex
       (handleUndo ((pushToHistory app)\<lparr>sessions := ss, currentSessionIndex := i\<rparr>))
       = currentSessionIndex app
   \<and> handleRedo (handleUndo ((pushToHistory app)\<lparr>sessions := ss, currentSessionIndex := i\<rparr>))
       = (pushToHistory app)\<lparr>sessions := ss, currentSessionIndex := i\<rparr>
   \<and> (past (history app) \<noteq> [] \<longrightarrow> handleRedo (handleUndo app) = app)
   \<and> (future (history app) \<noteq> [] \<longrightarrow> handleUndo (handleRedo app) = app)
   \<and> (n \<le> length (past (history app)) \<longrightarrow> (handleRedo ^^ n) ((handleUndo ^^ n) app) = app)
   \<and> timeline (historyOps ops app) = timeline app
   \<and> (length (past (history (historyOps ops app))) = length (past (history app))
        \<longrightarrow> historyOps ops app = app)"
proof -
  let ?r = "(pushToHistory app)\<lparr>sessions := ss, currentSessionIndex := i\<rparr>"
  have a: "sessions (handleUndo (pushToHistory app)) = sessions app"
    and b: "currentSessionIndex (handleUndo (pushToHistory app)) = currentSessionIndex app"
    by (simp_all add: handleUndo_def pushToHistory_def snapshot_def Let_def)
  have c: "sessions (handleUndo ?r) = sessions app"
    and d: "currentSessionIndex (handleUndo ?r) = currentSessionIndex app"
    by (simp_all add: handleUndo_def pushToHistory_def snapshot_def Let_def)
  have "past (history ?r) \<noteq> []"
    by (simp add: pushToHistory_def)
  then have e: "handleRedo (handleUndo ?r) = ?r"
    by (rule redo_undo)
  have f: "length (past (history (historyOps ops app))) = length (past (history app))
           \<longrightarrow> historyOps ops app = app"
    using app_eq_from_timeline [of "historyOps ops app" app]
    by (simp add: timeline_historyOps historyOps_frame)
  from a b c d e f show ?thesis
    by (simp add: redo_undo undo_redo undo_n_redo_n timeline_historyOps)
qed

theorem history_round_trip_witness:
  "past (history (pushToHistory (initApp []))) \<noteq> []
   \<and> handleRedo (handleUndo (pushToHistory (initApp []))) = pushToHistory (initApp [])
   \<and> future (history (handleUndo (pushToHistory (initApp [])))) \<noteq> []
   \<and> handleUndo (handleRedo (handleUndo (pushToHistory (initApp []))))
       = handleUndo (pushToHistory (initApp []))
   \<and> (1::nat) \<le> length (past (history (pushToHistory (initApp []))))
   \<and> (handleRedo ^^ 1) ((handleUndo ^^ 1) (pushToHistory (initApp [])))
       = pushToHistory (initApp [])
   \<and> length (past (history (historyOps [Undo, Redo] (pushToHistory (initApp [])))))
       = length (past (history (pushToHistory (initApp []))))
   \<and> historyOps [Undo, Redo] (pushToHistory (initApp [])) = pushToHistory (initApp [])"
proof -
  have p: "past (history (pushToHistory (initApp []))) \<noteq> []"
    by (simp add: pushToHistory_def)
  have f: "future (history (handleUndo (pushToHistory (initApp [])))) \<noteq> []"
    by (simp add: pushToHistory_def handleUndo_def Let_def)
  have l: "length (past (history (historyOps [Undo, Redo] (pushToHistory (initApp [])))))
           = length (past (history (pushToHistory (initApp []))))"
    by (simp add: historyOps_def pushToHistory_def handleUndo_def handleRedo_def Let_def)
  show ?thesis
    using p f l
      history_round_trip [of "pushToHistory (initApp [])" _ _ 1 "[Undo, Redo]"]
      history_round_trip [of "handleUndo (pushToHistory (initApp []))" _ _ 0 "[]"]
    by (simp add: pushToHistory_def)
qed

section \<open>Properties of the JSON-stream extractor\<close>

lemma indexOf_append:
  "indexOf B c i = Some k \<Longrightarrow> indexOf (B @ C) c i = Some k"
proof (induction B c i rule: indexOf.induct)
  case (1 s c i)
  from "1.prems" have il: "i < length s"
    by (subst (asm) indexOf.simps) (simp split: if_splits)
  show ?case
  proof (cases "s ! i = c")
    case True
    with il "1.prems" have "k = i"
      by (subst (asm) indexOf.simps) simp
    with il True show ?thesis
      by (subst indexOf.simps) (simp add: nth_append)
  next
    case False
    with il "1.prems" have "indexOf s c (i + 1) = Some k"
      by (subst (asm) indexOf.simps) simp
    with "1.IH" il False have "indexOf (s @ C) c (i + 1) = Some k" by simp
    with il False show ?thesis
      by (subst indexOf.simps) (simp add: nth_append)
  qed
qed

lemma findEndFrom_append:
  "findEndFrom B s i bc = Some e \<Longrightarrow> findEndFrom (B @ C) s i bc = Some e"
proof (induction B s i bc rule: findEndFrom.induct)
  case (1 buffer start i braceCount)
  from "1.prems" have il: "i < length buffer"
    by (subst (asm) findEndFrom.simps) (simp split: if_splits)
  then have n: "(buffer @ C) ! i = buffer ! i" "i < length (buffer @ C)"
    by (simp_all add: nth_append)
  show ?case
    using "1.prems" "1.IH" il
    by (subst findEndFrom.simps, subst (asm) (2) findEndFrom.simps)
       (simp only: n Let_def, auto split: if_splits)
qed

lemma findEnd_append: "findEnd B s = Some e \<Longrightarrow> findEnd (B @ C) s = Some e"
  by (simp add: findEnd_def findEndFrom_append)

lemma substring_append:
  "a \<le> b \<Longrightarrow> b \<le> length B \<Longrightarrow> substring (B @ C) a b = substring B a b"
  by (simp add: substring_def Let_def min_def max_def)

lemma scan_append_aux:
  "\<forall>k. st = indexOf B CHR ''{'' k \<longrightarrow>
     (\<forall>D. scanBuffer parse (B @ D) (indexOf (B @ D) CHR ''{'' 0)
          = scanBuffer parse (B @ D) (indexOf (B @ D) CHR ''{'' k)) \<longrightarrow>
     scanBuffer parse (B @ C) (indexOf (B @ C) CHR ''{'' k)
       = (case scanBuffer parse B st of
            (o1, B') \<Rightarrow>
              (case scanBuffer parse (B' @ C) (indexOf (B' @ C) CHR ''{'' 0) of
                 (o2, B'') \<Rightarrow> (o1 @ o2, B'')))"
proof (induction parse B st rule: scanBuffer.induct)
  case (1 parse buffer)
  show ?case
  proof (intro allI impI)
    fix k
    assume J: "\<forall>D. scanBuffer parse (buffer @ D) (indexOf (buffer @ D) CHR ''{'' 0)
          = scanBuffer parse (buffer @ D) (indexOf (buffer @ D) CHR ''{'' k)"
    from J have "scanBuffer parse (buffer @ C) (indexOf (buffer @ C) CHR ''{'' k)
           = scanBuffer parse (buffer @ C) (indexOf (buffer @ C) CHR ''{'' 0)"
      by simp
    then show "scanBuffer parse (buffer @ C) (indexOf (buffer @ C) CHR ''{'' k)
       = (case scanBuffer parse buffer None of
            (o1, B') \<Rightarrow>
              (case scanBuffer parse (B' @ C) (indexOf (B' @ C) CHR ''{'' 0) of
                 (o2, B'') \<Rightarrow> (o1 @ o2, B'')))"
      by (cases "scanBuffer parse (buffer @ C) (indexOf (buffer @ C) CHR ''{'' 0)") simp
  qed
next
  case (2 parse buffer start)
  show ?case
  proof (intro allI impI)
    fix k
    assume st: "Some start = indexOf buffer CHR ''{'' k"
    assume J: "\<forall>D. scanBuffer parse (buffer @ D) (indexOf (buffer @ D) CHR ''{'' 0)
          = scanBuffer parse (buffer @ D) (indexOf (buffer @ D) CHR ''{'' k)"
    have ix: "indexOf (buffer @ D) CHR ''{'' k = Some start" for D
      using st indexOf_append [of buffer "CHR ''{''" k start D] by simp
    show "scanBuffer parse (buffer @ C) (indexOf (buffer @ C) CHR ''{'' k)
       = (case scanBuffer parse buffer (Some start) of
            (o1, B') \<Rightarrow>
              (case scanBuffer parse (B' @ C) (indexOf (B' @ C) CHR ''{'' 0) of
                 (o2, B'') \<Rightarrow> (o1 @ o2, B'')))"
    proof (cases "findEnd buffer start")
      case None
      from J have "scanBuffer parse (buffer @ C) (indexOf (buffer @ C) CHR ''{'' k)
           = scanBuffer parse (buffer @ C) (indexOf (buffer @ C) CHR ''{'' 0)"
        by simp
      with None show ?thesis
        by (cases "scanBuffer parse (buffer @ C) (indexOf (buffer @ C) CHR ''{'' 0)") simp
    next
      case (Some e)
      then have b: "start < e" "e < length buffer"
        using findEnd_bounds by blast+
      have fe: "findEnd (buffer @ D) start = Some e" for D
        using Some by (rule findEnd_append)
      have sb: "substring (buffer @ D) start (e + 1) = substring buffer start (e + 1)" for D
        using b by (simp add: substring_append)
      show ?thesis
      proof (cases "parse (substring buffer start (e + 1))")
        case None
        have step: "scanBuffer parse (buffer @ D) (Some start)
                    = scanBuffer parse (buffer @ D) (indexOf (buffer @ D) CHR ''{'' (start + 1))"
          for D
          using fe [of D] sb [of D] None by simp
        have J': "\<forall>D. scanBuffer parse (buffer @ D) (indexOf (buffer @ D) CHR ''{'' 0)
          = scanBuffer parse (buffer @ D) (indexOf (buffer @ D) CHR ''{'' (start + 1))"
          using J ix step by simp
        from "2.IH"(1) [OF Some None] J'
        have "scanBuffer parse (buffer @ C) (indexOf (buffer @ C) CHR ''{'' (start + 1))
              = (case scanBuffer parse buffer (indexOf buffer CHR ''{'' (start + 1)) of
                   (o1, B') \<Rightarrow>
                     (case scanBuffer parse (B' @ C) (indexOf (B' @ C) CHR ''{'' 0) of
                        (o2, B'') \<Rightarrow> (o1 @ o2, B'')))"
          by blast
        then show ?thesis
          using ix [of C] step [of C] Some None by simp
      next
        case (Some v)
        have dr: "drop (e + 1) (buffer @ C) = drop (e + 1) buffer @ C"
          using b by simp
        from "2.IH"(2) [OF \<open>findEnd buffer start = Some e\<close> Some]
        have "scanBuffer parse (drop (e + 1) buffer @ C)
                (indexOf (drop (e + 1) buffer @ C) CHR ''{'' 0)
              = (case scanBuffer parse (drop (e + 1) buffer)
                        (indexOf (drop (e + 1) buffer) CHR ''{'' 0) of
                   (o1, B') \<Rightarrow>
                     (case scanBuffer parse (B' @ C) (indexOf (B' @ C) CHR ''{'' 0) of
                        (o2, B'') \<Rightarrow> (o1 @ o2, B'')))"
          by blast
        then show ?thesis
          using ix [of C] fe [of C] sb [of C] Some \<open>findEnd buffer start = Some e\<close> dr
          by (simp split: prod.splits)
      qed
    qed
  qed
qed

lemma scanAll_append:
  "scanAll parse (B @ C)
   = (case scanAll parse B of
        (o1, B') \<Rightarrow> (case scanAll parse (B' @ C) of (o2, B'') \<Rightarrow> (o1 @ o2, B'')))"
  using scan_append_aux [of "indexOf B CHR ''{'' 0" B parse C]
  by (simp add: scanAll_def)

lemma scanAll_residue:
  assumes "scanAll parse B = (vs, B')"
  shows "scanAll parse B' = ([], B')"
proof -
  obtain o2 B'' where r: "scanAll parse B' = (o2, B'')"
    by (cases "scanAll parse B'")
  from scanAll_append [of parse B "[]"] assms r show ?thesis by simp
qed

lemma streamLoop_concat:
  "scanAll parse buffer = ([], buffer) \<Longrightarrow>
   streamLoop parse buffer chunks
     = fst (scanAll parse (buffer @ chunkTexts chunks))"
proof (induction chunks arbitrary: buffer)
  case Nil
  then show ?case by (simp add: chunkTexts_def)
next
  case (Cons chunk rest)
  show ?case
  proof (cases chunk)
    case None
    with Cons show ?thesis by (simp add: chunkTexts_def)
  next
    case (Some t)
    obtain vs b where s: "scanAll parse (buffer @ t) = (vs, b)"
      by (cases "scanAll parse (buffer @ t)")
    then have r: "scanAll parse b = ([], b)" by (rule scanAll_residue)
    let ?R = "chunkTexts rest"
    from Cons.IH [OF r] have "streamLoop parse b rest = fst (scanAll parse (b @ ?R))" .
    moreover have "scanAll parse ((buffer @ t) @ ?R)
        = (case scanAll parse (b @ ?R) of (o2, B'') \<Rightarrow> (vs @ o2, B''))"
      using scanAll_append [of parse "buffer @ t" ?R] s by simp
    ultimately show ?thesis
      using Some s by (simp add: chunkTexts_def split: prod.splits)
  qed
qed

lemma parseJsonStream_concat:
  "parseJsonStream parse chunks
     = fst (scanAll parse (chunkTexts chunks))"
proof -
  have "scanAll parse [] = ([], [])"
    by (simp add: scanAll_def indexOf.simps)
  from streamLoop_concat [OF this] show ?thesis
    by (simp add: parseJsonStream_def)
qed

lemma findEndFrom_closeAt:
  "start < i \<Longrightarrow>
   findEndFrom buffer start i bc
     = (case closeAt (drop i buffer) bc of None \<Rightarrow> None | Some n \<Rightarrow> Some (i + n))"
proof (induction buffer start i bc rule: findEndFrom.induct)
  case (1 buffer start i braceCount)
  show ?case
  proof (cases "i < length buffer")
    case False
    then show ?thesis by (subst findEndFrom.simps) simp
  next
    case True
    then have d: "drop i buffer = buffer ! i # drop (Suc i) buffer"
      by (simp add: Cons_nth_drop_Suc)
    have b: "(if buffer ! i = CHR ''{'' then braceCount + 1
               else if buffer ! i = CHR ''}'' then braceCount - 1
               else braceCount) = bump braceCount (buffer ! i)"
      by (simp add: bump_def)
    show ?thesis
    proof (cases "bump braceCount (buffer ! i) = 0")
      case z: True
      with True "1.prems" show ?thesis
        by (subst findEndFrom.simps) (simp add: d b Let_def)
    next
      case nz: False
      from "1.IH" [OF True b [symmetric]] nz "1.prems"
      have "findEndFrom buffer start (i + 1) (bump braceCount (buffer ! i))
            = (case closeAt (drop (i + 1) buffer) (bump braceCount (buffer ! i)) of
                 None \<Rightarrow> None | Some n \<Rightarrow> Some (i + 1 + n))"
        by simp
      with True nz show ?thesis
        by (subst findEndFrom.simps)
           (simp add: d b Let_def split: option.splits)
    qed
  qed
qed

lemma findEnd_closeAt:
  "findEnd buffer start =
     (if start < length buffer
      then (case closeAt (drop (start + 1) buffer) (bump 0 (buffer ! start)) of
              None \<Rightarrow> None | Some n \<Rightarrow> Some (start + 1 + n))
      else None)"
proof (cases "start < length buffer")
  case False
  then show ?thesis
    unfolding findEnd_def by (subst findEndFrom.simps) simp
next
  case True
  have "findEnd buffer start = findEndFrom buffer start (start + 1) (bump 0 (buffer ! start))"
    unfolding findEnd_def using True
    by (subst findEndFrom.simps) (simp add: bump_def Let_def)
  then show ?thesis
    using True findEndFrom_closeAt [of start "start + 1" buffer] by simp
qed

lemma closeAt_append:
  "closeAt (xs @ ys) d =
     (case closeAt xs d of
        Some n \<Rightarrow> Some n
      | None \<Rightarrow>
          (case closeAt ys (foldl bump d xs) of
             None \<Rightarrow> None | Some n \<Rightarrow> Some (length xs + n)))"
proof (induction xs arbitrary: d)
  case Nil
  then show ?case by (simp split: option.splits)
next
  case (Cons c cs)
  then show ?case
    by (simp split: option.splits)
qed

lemma closeAt_None_depth:
  "1 \<le> d \<Longrightarrow> closeAt xs d = None \<Longrightarrow> 1 \<le> foldl bump d xs"
proof (induction xs arbitrary: d)
  case Nil
  then show ?case by simp
next
  case (Cons c cs)
  from Cons.prems have nz: "bump d c \<noteq> 0" and r: "closeAt cs (bump d c) = None"
    by (auto split: if_splits option.splits)
  from Cons.prems(1) have "0 \<le> bump d c" by (simp add: bump_def)
  with nz have "1 \<le> bump d c" by simp
  from Cons.IH [OF this r] show ?case by simp
qed

lemma closeAt_None_mono:
  "1 \<le> d \<Longrightarrow> d \<le> d' \<Longrightarrow> closeAt ys d = None \<Longrightarrow> closeAt ys d' = None"
proof (induction ys arbitrary: d d')
  case Nil
  then show ?case by simp
next
  case (Cons c cs)
  from Cons.prems have nz: "bump d c \<noteq> 0" and r: "closeAt cs (bump d c) = None"
    by (auto split: if_splits option.splits)
  from Cons.prems(1) have "0 \<le> bump d c" by (simp add: bump_def)
  with nz have one: "1 \<le> bump d c" by simp
  from Cons.prems(2) have le: "bump d c \<le> bump d' c" by (simp add: bump_def)
  from Cons.IH [OF one le r] have "closeAt cs (bump d' c) = None" .
  moreover from one le have "bump d' c \<noteq> 0" by simp
  ultimately show ?case by simp
qed

text \<open>An object that opens at the head of T and never closes within T.\<close>

lemma unclosed_tail:
  assumes "T \<noteq> []" "hd T = CHR ''{''" "findEnd T 0 = None"
  shows "closeAt (tl T) 1 = None"
proof -
  from assms(1,2) obtain T' where T: "T = CHR ''{'' # T'" by (cases T) auto
  with assms(3) show ?thesis
    by (simp add: findEnd_closeAt bump_def split: option.splits)
qed

lemma findEnd_at_tail:
  assumes "T \<noteq> []" "hd T = CHR ''{''" "findEnd T 0 = None"
  shows "findEnd (X @ T) (length X) = None"
proof -
  from assms(1,2) obtain T' where T: "T = CHR ''{'' # T'" by (cases T) auto
  with unclosed_tail [OF assms] have "closeAt T' 1 = None" by simp
  with T show ?thesis
    by (simp add: findEnd_closeAt bump_def)
qed

lemma findEnd_None_extend:
  assumes T: "T \<noteq> []" "hd T = CHR ''{''" "findEnd T 0 = None"
    and s: "start < length X" "X ! start = CHR ''{''" "findEnd X start = None"
  shows "findEnd (X @ T) start = None"
proof -
  from T(1,2) obtain T' where Teq: "T = CHR ''{'' # T'" by (cases T) auto
  from unclosed_tail [OF T] Teq have t: "closeAt T' 1 = None" by simp
  let ?xs = "drop (start + 1) X"
  from s have x: "closeAt ?xs 1 = None"
    by (simp add: findEnd_closeAt bump_def split: option.splits)
  then have d: "1 \<le> foldl bump 1 ?xs"
    by (rule closeAt_None_depth [rotated]) simp
  then have "closeAt T' (foldl bump 1 ?xs + 1) = None"
    using closeAt_None_mono [of 1 "foldl bump 1 ?xs + 1" T'] t by simp
  with d have "closeAt T (foldl bump 1 ?xs) = None"
    by (simp add: Teq bump_def)
  with x have "closeAt (?xs @ T) 1 = None"
    by (simp add: closeAt_append)
  with s show ?thesis
    by (simp add: findEnd_closeAt bump_def nth_append)
qed

lemma indexOf_Some_char: "indexOf s c i = Some k \<Longrightarrow> s ! k = c"
proof (induction s c i rule: indexOf.induct)
  case (1 s c i)
  then show ?case
    by (subst (asm) (2) indexOf.simps) (auto split: if_splits)
qed

lemma indexOf_None_append:
  "indexOf X c k = None \<Longrightarrow> k \<le> length X \<Longrightarrow> T \<noteq> [] \<Longrightarrow> hd T = c \<Longrightarrow>
   indexOf (X @ T) c k = Some (length X)"
proof (induction X c k rule: indexOf.induct)
  case (1 s c i)
  show ?case
  proof (cases "i < length s")
    case True
    with "1.prems"(1) have ne: "s ! i \<noteq> c" and r: "indexOf s c (i + 1) = None"
      by (subst (asm) indexOf.simps, simp split: if_splits)+
    from "1.IH" [OF True ne r] True "1.prems"
    have "indexOf (s @ T) c (i + 1) = Some (length s)" by simp
    with True ne show ?thesis
      by (subst indexOf.simps) (simp add: nth_append)
  next
    case False
    with "1.prems" have "i = length s" by simp
    with "1.prems" show ?thesis
      by (subst indexOf.simps) (simp add: nth_append hd_conv_nth)
  qed
qed

lemma scan_unclosed_aux:
  assumes T: "T \<noteq> []" "hd T = CHR ''{''" "findEnd T 0 = None"
  shows "\<forall>k. st = indexOf X CHR ''{'' k \<longrightarrow> k \<le> length X \<longrightarrow>
           scanBuffer parse X st = ([], X) \<longrightarrow>
           scanBuffer parse (X @ T) (indexOf (X @ T) CHR ''{'' k) = ([], X @ T)"
proof (induction parse X st rule: scanBuffer.induct)
  case (1 parse buffer)
  show ?case
  proof (intro allI impI)
    fix k
    assume "None = indexOf buffer CHR ''{'' k" "k \<le> length buffer"
    then have "indexOf (buffer @ T) CHR ''{'' k = Some (length buffer)"
      using indexOf_None_append [of buffer "CHR ''{''" k T] T by simp
    then show "scanBuffer parse (buffer @ T) (indexOf (buffer @ T) CHR ''{'' k)
               = ([], buffer @ T)"
      using findEnd_at_tail [OF T, of buffer] by simp
  qed
next
  case (2 parse buffer start)
  show ?case
  proof (intro allI impI)
    fix k
    assume st: "Some start = indexOf buffer CHR ''{'' k"
      and k: "k \<le> length buffer"
      and r: "scanBuffer parse buffer (Some start) = ([], buffer)"
    from st have sb: "start < length buffer" and sc: "buffer ! start = CHR ''{''"
      using indexOf_bounds [of buffer "CHR ''{''" k start]
        indexOf_Some_char [of buffer "CHR ''{''" k start] by simp_all
    have ix: "indexOf (buffer @ T) CHR ''{'' k = Some start"
      using st indexOf_append [of buffer "CHR ''{''" k start T] by simp
    show "scanBuffer parse (buffer @ T) (indexOf (buffer @ T) CHR ''{'' k)
          = ([], buffer @ T)"
    proof (cases "findEnd buffer start")
      case None
      from findEnd_None_extend [OF T sb sc None] ix show ?thesis by simp
    next
      case (Some e)
      then have b: "start < e" "e < length buffer"
        using findEnd_bounds by blast+
      have fe: "findEnd (buffer @ T) start = Some e"
        using Some by (rule findEnd_append)
      have su: "substring (buffer @ T) start (e + 1) = substring buffer start (e + 1)"
        using b by (simp add: substring_append)
      show ?thesis
      proof (cases "parse (substring buffer start (e + 1))")
        case None
        from r Some None
        have "scanBuffer parse buffer (indexOf buffer CHR ''{'' (start + 1)) = ([], buffer)"
          by simp
        with "2.IH"(1) [OF Some None] sb
        have "scanBuffer parse (buffer @ T) (indexOf (buffer @ T) CHR ''{'' (start + 1))
              = ([], buffer @ T)"
          by simp
        with ix fe su None show ?thesis by simp
      next
        case (Some v)
        with r \<open>findEnd buffer start = Some e\<close> show ?thesis
          by (simp split: prod.splits)
      qed
    qed
  qed
qed

lemma scanAll_unclosed:
  assumes "T \<noteq> []" "hd T = CHR ''{''" "findEnd T 0 = None"
    and "scanAll parse X = ([], X)"
  shows "scanAll parse (X @ T) = ([], X @ T)"
  using scan_unclosed_aux [OF assms(1-3), of "indexOf X CHR ''{'' 0" X parse] assms(4)
  by (simp add: scanAll_def)

lemma scanAll_trailing:
  assumes "T \<noteq> []" "hd T = CHR ''{''" "findEnd T 0 = None"
  shows "fst (scanAll parse (P @ T)) = fst (scanAll parse P)"
proof -
  obtain vs b where s: "scanAll parse P = (vs, b)" by (cases "scanAll parse P")
  then have "scanAll parse b = ([], b)" by (rule scanAll_residue)
  from scanAll_unclosed [OF assms this] s scanAll_append [of parse P T]
  show ?thesis by simp
qed

text \<open>
  C1. The values that \<open>parseJsonStream\<close> yields, and their order, depend on the complete
  text only: two streams whose string chunks concatenate to the same text yield the same
  sequence, which is the one the whole text yields when it arrives as a single chunk.
\<close>

theorem parseJsonStream_chunking:
  "(chunkTexts chunks1 = chunkTexts chunks2
      \<longrightarrow> parseJsonStream parse chunks1 = parseJsonStream parse chunks2)
   \<and> parseJsonStream parse chunks1 = parseJsonStream parse [Some (chunkTexts chunks1)]"
proof -
  have "chunkTexts [Some (chunkTexts chunks1)] = chunkTexts chunks1"
    by (simp add: chunkTexts_def)
  then show ?thesis
    by (simp add: parseJsonStream_concat)
qed

theorem parseJsonStream_chunking_witness:
  "chunkTexts [Some ''{!{a:1,b:{c:2}}}{x:'', None, Some ''5}'']
     = chunkTexts [Some ''{!{a:1'', Some '',b:{c:2}'', Some ''}}{x:5}'']
   \<and> parseJsonStream (\<lambda>s. if CHR ''!'' \<in> set s then None else Some s)
        [Some ''{!{a:1,b:{c:2}}}{x:'', None, Some ''5}'']
     = parseJsonStream (\<lambda>s. if CHR ''!'' \<in> set s then None else Some s)
        [Some ''{!{a:1'', Some '',b:{c:2}'', Some ''}}{x:5}'']"
  using parseJsonStream_chunking
    [of "[Some ''{!{a:1,b:{c:2}}}{x:'', None, Some ''5}'']"
        "[Some ''{!{a:1'', Some '',b:{c:2}'', Some ''}}{x:5}'']"
        "\<lambda>s. if CHR ''!'' \<in> set s then None else Some s"]
  by (simp add: chunkTexts_def)

text \<open>
  C5. When the complete text of the stream ends with an object that opens and whose brace
  count never returns to zero (\<open>T\<close>, after any text \<open>P\<close>), nothing of \<open>T\<close> is
  yielded: the extractor yields exactly what it yields on \<open>P\<close> alone. It raises nothing:
  \<open>parseJsonStream\<close> is a total function into lists of values, the throw of
  \<open>JSON.parse\<close> being the caught \<open>None\<close>.
\<close>

theorem parseJsonStream_trailing_incomplete:
  assumes "T \<noteq> []" and "hd T = CHR ''{''" and "findEnd T 0 = None"
    and "chunkTexts chunks = P @ T"
  shows "parseJsonStream parse chunks = parseJsonStream parse [Some P]"
proof -
  have "chunkTexts [Some P] = P"
    by (simp add: chunkTexts_def)
  then show ?thesis
    using assms(4) scanAll_trailing [OF assms(1-3), of parse P]
    by (simp add: parseJsonStream_concat)
qed

theorem parseJsonStream_trailing_incomplete_witness:
  "''{b:{c:3}'' \<noteq> [] \<and> hd ''{b:{c:3}'' = CHR ''{'' \<and> findEnd ''{b:{c:3}'' 0 = None
   \<and> chunkTexts [Some ''{a:1}{b'', Some '':{c:3}''] = ''{a:1}'' @ ''{b:{c:3}''
   \<and> parseJsonStream Some [Some ''{a:1}{b'', Some '':{c:3}'']
       = parseJsonStream Some [Some ''{a:1}'']
   \<and> parseJsonStream Some [Some ''{a:1}''] = [''{a:1}'']"
proof -
  have a: "findEnd ''{b:{c:3}'' 0 = None"
    by code_simp
  have b: "chunkTexts [Some ''{a:1}{b'', Some '':{c:3}''] = ''{a:1}'' @ ''{b:{c:3}''"
    by (simp add: chunkTexts_def)
  have c: "parseJsonStream Some [Some ''{a:1}''] = [''{a:1}'']"
    by code_simp
  from parseJsonStream_trailing_incomplete [OF _ _ a b, of Some] a b c
  show ?thesis by simp
qed

section \<open>Properties of the export\<close>

lemma includes_str_prefix: "prefix sub s \<Longrightarrow> includes_str s sub"
  by (cases s) simp_all









section \<open>Properties of the style names\<close>

text \<open>
  C7. Whatever the naming response is, exactly three names come out. They are the three
  fixed fallback names when the response has no bracketed text, when the bracketed text
  does not parse, and when it parses to fewer than three names; they are the first three
  of the parsed names otherwise. The response \<open>Here you go: ["A","B","C","D"]\<close> gives
  \<open>["A","B","C"]\<close>, for any \<open>JSON.parse\<close> that reads the bracketed text as the four
  names.
\<close>

theorem extractStyles_three:
  "length (extractStyles parseJson responseText) = 3
   \<and> (matchBracketed (styleTextOf responseText) = None \<longrightarrow>
        extractStyles parseJson responseText = fallbackStyles)
   \<and> (matchBracketed (styleTextOf responseText) = Some m \<and> parseJson m = None \<longrightarrow>
        extractStyles parseJson responseText = fallbackStyles)
   \<and> (matchBracketed (styleTextOf responseText) = Some m \<and> parseJson m = Some xs
        \<and> length xs < 3 \<longrightarrow>
        extractStyles parseJson responseText = fallbackStyles)
   \<and> (matchBracketed (styleTextOf responseText) = Some m \<and> parseJson m = Some xs
        \<and> 3 \<le> length xs \<longrightarrow>
        extractStyles parseJson responseText = take 3 xs)
   \<and> (parseJson ''[\"A\",\"B\",\"C\",\"D\"]'' = Some [''A'', ''B'', ''C'', ''D''] \<longrightarrow>
        extractStyles parseJson (Some ''Here you go: [\"A\",\"B\",\"C\",\"D\"]'')
          = [''A'', ''B'', ''C''])"
proof -
  have f: "length fallbackStyles = 3" "take 3 fallbackStyles = fallbackStyles"
    by (simp_all add: fallbackStyles_def)
  have m: "matchBracketed ''Here you go: [\"A\",\"B\",\"C\",\"D\"]''
           = Some ''[\"A\",\"B\",\"C\",\"D\"]''"
    by code_simp
  have a: "length (extractStyles parseJson responseText) = 3"
    by (simp add: extractStyles_def Let_def f split: option.splits)
  have b: "parseJson ''[\"A\",\"B\",\"C\",\"D\"]'' = Some [''A'', ''B'', ''C'', ''D''] \<longrightarrow>
        extractStyles parseJson (Some ''Here you go: [\"A\",\"B\",\"C\",\"D\"]'')
          = [''A'', ''B'', ''C'']"
    by (simp add: extractStyles_def styleTextOf_def Let_def m)
  from a b show ?thesis
    by (simp add: extractStyles_def styleTextOf_def Let_def f)
qed

theorem extractStyles_three_witness:
  "matchBracketed (styleTextOf (Some ''no names'')) = None
   \<and> extractStyles (\<lambda>s. None) (Some ''no names'') = fallbackStyles
   \<and> matchBracketed (styleTextOf (Some ''x [1] y'')) = Some ''[1]''
   \<and> extractStyles (\<lambda>s. None) (Some ''x [1] y'') = fallbackStyles
   \<and> extractStyles (\<lambda>s. Some [''P'', ''Q'']) (Some ''x [1] y'') = fallbackStyles
   \<and> extractStyles (\<lambda>s. Some [''P'', ''Q'', ''R'', ''S'']) (Some ''x [1] y'')
       = take 3 [''P'', ''Q'', ''R'', ''S'']
   \<and> extractStyles (\<lambda>s. if s = ''[\"A\",\"B\",\"C\",\"D\"]''
                         then Some [''A'', ''B'', ''C'', ''D''] else None)
        (Some ''Here you go: [\"A\",\"B\",\"C\",\"D\"]'') = [''A'', ''B'', ''C'']"
proof -
  have n: "matchBracketed (styleTextOf (Some ''no names'')) = None"
    by code_simp
  have s: "matchBracketed (styleTextOf (Some ''x [1] y'')) = Some ''[1]''"
    by code_simp
  show ?thesis
    using n s
      extractStyles_three [of "\<lambda>s. None" "Some ''no names''"]
      extractStyles_three [of "\<lambda>s. None" "Some ''x [1] y''" "''[1]''"]
      extractStyles_three [of "\<lambda>s. Some [''P'', ''Q'']" "Some ''x [1] y''" "''[1]''"
                              "[''P'', ''Q'']"]
      extractStyles_three [of "\<lambda>s. Some [''P'', ''Q'', ''R'', ''S'']" "Some ''x [1] y''"
                              "''[1]''" "[''P'', ''Q'', ''R'', ''S'']"]
      extractStyles_three [of "\<lambda>s. if s = ''[\"A\",\"B\",\"C\",\"D\"]''
                         then Some [''A'', ''B'', ''C'', ''D''] else None"]
    by simp
qed

section \<open>Invariants of the session store\<close>

lemma length_mapIndexed [simp]: "length (mapIndexed f xs) = length xs"
  by (simp add: mapIndexed_def)

lemma map_mapIndexed_keep:
  assumes "\<And>x i. h (f x i) = h x"
  shows "map h (mapIndexed f xs) = map h xs"
proof -
  have "map h (mapIndexed f xs) = map (\<lambda>p. h (snd p)) (enumerate 0 xs)"
    by (simp add: mapIndexed_def assms split_def)
  also have "\<dots> = map h (map snd (enumerate 0 xs))"
    by (simp only: map_map comp_def)
  finally show ?thesis by simp
qed

lemma counts_setStyleNames [simp]:
  "artifactCounts (setStyleNames sid names ss) = artifactCounts ss"
  by (simp add: artifactCounts_def setStyleNames_def comp_def)

lemma counts_setArtifactHtml [simp]:
  "artifactCounts (setArtifactHtml sid aid h ss) = artifactCounts ss"
  by (simp add: artifactCounts_def setArtifactHtml_def comp_def)

lemma counts_finishArtifact [simp]:
  "artifactCounts (finishArtifact sid aid h ss) = artifactCounts ss"
  by (simp add: artifactCounts_def finishArtifact_def comp_def)

lemma counts_failArtifact [simp]:
  "artifactCounts (failArtifact sid aid h ss) = artifactCounts ss"
  by (simp add: artifactCounts_def failArtifact_def comp_def)

lemma counts_setImagesHtml [simp]:
  "artifactCounts (setImagesHtml i j h ss) = artifactCounts ss"
  unfolding artifactCounts_def setImagesHtml_def
  by (rule map_mapIndexed_keep) simp

lemma counts_applyVariation [simp]:
  "artifactCounts (sessions (applyVariation h app)) = artifactCounts (sessions app)"
proof (cases "focusedArtifactIndex app")
  case None
  then show ?thesis by (simp add: applyVariation_def pushToHistory_def Let_def)
next
  case (Some f)
  have "map (\<lambda>s. length (artifacts s))
          (mapIndexed (\<lambda>sess i.
                   if int i = currentSessionIndex app
                   then sess\<lparr>artifacts :=
                          mapIndexed (\<lambda>art j.
                              if j = f then art\<lparr>html := h, status := Complete\<rparr>
                              else art) (artifacts sess)\<rparr>
                   else sess) (sessions app))
        = map (\<lambda>s. length (artifacts s)) (sessions app)"
    by (rule map_mapIndexed_keep) simp
  with Some show ?thesis
    by (simp add: applyVariation_def pushToHistory_def Let_def artifactCounts_def)
qed

lemma length_artifactCounts [simp]: "length (artifactCounts ss) = length ss"
  by (simp add: artifactCounts_def)

lemma counts_keepsSessions:
  "keepsSessions a \<Longrightarrow> artifactCounts (sessions (step a app)) = artifactCounts (sessions app)"
  by (cases a)
     (simp_all add: handleGenerateImages_def nextItem_def prevItem_def pushToHistory_def
        split: option.splits)

lemma length_placeholderArtifacts [simp]: "length (placeholderArtifacts sid) = 3"
  by (simp add: placeholderArtifacts_def)

lemma history_keepsSessions_cases:
  "history (pushToHistory app) = \<lparr>past = past (history app) @ [snapshot app], future = []\<rparr>"
  by (simp add: pushToHistory_def)

lemma allThree_holds:
  "allThreeArtifacts app = holdsEverywhere (\<lambda>e. threeArtifacts (sessions e)) app"
  by (simp add: allThreeArtifacts_def holdsEverywhere_def snapshot_def)

lemma allIndex_holds:
  "allIndexValid app
   = holdsEverywhere (\<lambda>e. indexValid (sessions e) (currentSessionIndex e)) app"
  by (simp add: allIndexValid_def holdsEverywhere_def snapshot_def)

lemma holds_push: "holdsEverywhere Q app \<Longrightarrow> holdsEverywhere Q (pushToHistory app)"
  by (simp add: holdsEverywhere_def pushToHistory_def snapshot_def)

lemma holds_undo: "holdsEverywhere Q app \<Longrightarrow> holdsEverywhere Q (handleUndo app)"
proof (cases "past (history app) = []")
  case True
  then show "holdsEverywhere Q app \<Longrightarrow> ?thesis" by (simp add: handleUndo_empty)
next
  case False
  assume h: "holdsEverywhere Q app"
  from False have eq: "butlast (past (history app)) @ [last (past (history app))]
                       = past (history app)"
    by simp
  have "list_all Q (butlast (past (history app)) @ [last (past (history app))])
        = (list_all Q (butlast (past (history app))) \<and> Q (last (past (history app))))"
    by simp
  then have "list_all Q (past (history app))
             = (list_all Q (butlast (past (history app))) \<and> Q (last (past (history app))))"
    unfolding eq .
  with h False show ?thesis
    by (simp add: holdsEverywhere_def handleUndo_def snapshot_def Let_def)
qed

lemma holds_redo: "holdsEverywhere Q app \<Longrightarrow> holdsEverywhere Q (handleRedo app)"
proof (cases "future (history app)")
  case Nil
  then show "holdsEverywhere Q app \<Longrightarrow> ?thesis" by (simp add: handleRedo_empty)
next
  case (Cons n fs)
  assume "holdsEverywhere Q app"
  with Cons show ?thesis
    by (simp add: holdsEverywhere_def handleRedo_def snapshot_def Let_def)
qed

lemma holds_live:
  "holdsEverywhere Q app \<Longrightarrow> history app' = history app \<Longrightarrow> Q (snapshot app')
   \<Longrightarrow> holdsEverywhere Q app'"
  by (simp add: holdsEverywhere_def)

lemma snapshot_push [simp]: "snapshot (pushToHistory app) = snapshot app"
  by (simp add: snapshot_def pushToHistory_def)

lemma handleSendMessage_rejected:
  "trim (promptToUse mp app) = [] \<or> isLoading app \<Longrightarrow> handleSendMessage mp sid t app = app"
  by (auto simp add: handleSendMessage_def Let_def)

lemma handleSendMessage_accepted:
  assumes "trim (promptToUse mp app) \<noteq> []" and "\<not> isLoading app"
  shows "sessions (handleSendMessage mp sid t app)
           = sessions app @ [\<lparr>session_id = sid, prompt = trim (promptToUse mp app),
                               timestamp = t, artifacts = placeholderArtifacts sid\<rparr>]"
    and "currentSessionIndex (handleSendMessage mp sid t app) = currentSessionIndex app + 1"
    and "history (handleSendMessage mp sid t app) = history (pushToHistory app)"
    and "focusedArtifactIndex (handleSendMessage mp sid t app) = None"
  using assms by (simp_all add: handleSendMessage_def Let_def pushToHistory_def snapshot_def)

lemma handleSendMessage_cases:
  obtains (rejected) "handleSendMessage mp sid t app = app"
  | (accepted) "sessions (handleSendMessage mp sid t app)
           = sessions app @ [\<lparr>session_id = sid, prompt = trim (promptToUse mp app),
                               timestamp = t, artifacts = placeholderArtifacts sid\<rparr>]"
      "currentSessionIndex (handleSendMessage mp sid t app) = currentSessionIndex app + 1"
      "history (handleSendMessage mp sid t app) = history (pushToHistory app)"
proof (cases "trim (promptToUse mp app) = [] \<or> isLoading app")
  case True
  then show ?thesis using rejected handleSendMessage_rejected by blast
next
  case False
  then show ?thesis using accepted handleSendMessage_accepted [of mp app sid t] by blast
qed

lemma step_history:
  "step a app = handleUndo app \<or> step a app = handleRedo app
   \<or> history (step a app) = history app
   \<or> history (step a app) = history (pushToHistory app)"
proof (cases a)
  case (SendMessage mp sid t)
  then show ?thesis
    by (cases rule: handleSendMessage_cases [of mp sid t app]) simp_all
qed (auto simp add: applyVariation_def handleGenerateImages_def nextItem_def prevItem_def
       Let_def split: option.splits)

lemma holds_step:
  assumes "holdsEverywhere Q app"
    and "Q (snapshot (step a app))"
  shows "holdsEverywhere Q (step a app)"
  using step_history [of a app] assms holds_undo [of Q app] holds_redo [of Q app]
    holds_live [of Q app "step a app"]
    holds_live [of Q "pushToHistory app" "step a app", OF holds_push]
  by auto

lemma three_step:
  assumes "allThreeArtifacts app"
  shows "allThreeArtifacts (step a app)"
proof -
  have "threeArtifacts (sessions (step a app))"
  proof (cases "keepsSessions a")
    case True
    from counts_keepsSessions [OF this, of app] assms show ?thesis
      by (simp add: threeArtifacts_def allThreeArtifacts_def)
  next
    case False
    then show ?thesis
    proof (cases a)
      case (SendMessage mp sid t)
      with assms show ?thesis
        by (cases rule: handleSendMessage_cases [of mp sid t app])
           (simp_all add: threeArtifacts_def artifactCounts_def allThreeArtifacts_def)
    next
      case UndoPressed
      from holds_undo [of "\<lambda>e. threeArtifacts (sessions e)" app] assms UndoPressed
      show ?thesis by (simp add: allThree_holds holdsEverywhere_def snapshot_def)
    next
      case RedoPressed
      from holds_redo [of "\<lambda>e. threeArtifacts (sessions e)" app] assms RedoPressed
      show ?thesis by (simp add: allThree_holds holdsEverywhere_def snapshot_def)
    qed simp_all
  qed
  with holds_step [of "\<lambda>e. threeArtifacts (sessions e)" app a] assms show ?thesis
    by (simp add: allThree_holds snapshot_def)
qed

lemma length_keepsSessions:
  "keepsSessions a \<Longrightarrow> length (sessions (step a app)) = length (sessions app)"
  using counts_keepsSessions [of a app] length_artifactCounts by metis

lemma index_step:
  assumes "allIndexValid app"
  shows "allIndexValid (step a app)"
proof -
  let ?Q = "\<lambda>e. indexValid (sessions e) (currentSessionIndex e)"
  from assms have v: "indexValid (sessions app) (currentSessionIndex app)"
    by (simp add: allIndexValid_def)
  have "indexValid (sessions (step a app)) (currentSessionIndex (step a app))"
  proof (cases a)
    case (SendMessage mp sid t)
    with v show ?thesis
      by (cases rule: handleSendMessage_cases [of mp sid t app])
         (simp_all add: indexValid_def)
  next
    case UndoPressed
    from holds_undo [of ?Q app] assms UndoPressed
    show ?thesis by (simp add: allIndex_holds holdsEverywhere_def snapshot_def)
  next
    case RedoPressed
    from holds_redo [of ?Q app] assms RedoPressed
    show ?thesis by (simp add: allIndex_holds holdsEverywhere_def snapshot_def)
  next
    case NextItem
    with v show ?thesis
      by (auto simp add: nextItem_def indexValid_def pushToHistory_def split: option.splits)
  next
    case PrevItem
    with v show ?thesis
      by (auto simp add: prevItem_def indexValid_def pushToHistory_def split: option.splits)
  next
    case (ApplyVariation h)
    with v length_keepsSessions [of a app] show ?thesis
      by (auto simp add: indexValid_def applyVariation_def pushToHistory_def Let_def
            split: option.splits)
  next
    case GenerateImages
    with v show ?thesis
      by (auto simp add: indexValid_def handleGenerateImages_def pushToHistory_def
            split: option.splits)
  qed (use v in \<open>simp_all add: indexValid_def setStyleNames_def setArtifactHtml_def
         finishArtifact_def failArtifact_def setImagesHtml_def\<close>)
  with holds_step [of ?Q app a] assms show ?thesis
    by (simp add: allIndex_holds snapshot_def)
qed

lemma three_run: "allThreeArtifacts app \<Longrightarrow> allThreeArtifacts (run actions app)"
  unfolding run_def by (induction actions arbitrary: app) (simp_all add: three_step)

lemma index_run: "allIndexValid app \<Longrightarrow> allIndexValid (run actions app)"
  unfolding run_def by (induction actions arbitrary: app) (simp_all add: index_step)

lemma index_init: "allIndexValid (initApp saved)"
  by (simp add: allIndexValid_def initApp_def indexValid_def)

lemma three_init: "threeArtifacts saved \<Longrightarrow> allThreeArtifacts (initApp saved)"
  by (simp add: allThreeArtifacts_def initApp_def)

text \<open>
  C4. A session has exactly three artifacts when \<open>handleSendMessage\<close> creates it, and
  no operation changes the number of artifacts of a session: the style-name update, the
  streamed html fragments, the end or the failure of a stream, applying a variation and
  image generation (all the actions but a new prompt, undo and redo) leave the artifact
  count of every session as it was; a new prompt only appends a session of three. So
  when every session of the live state and of the history has three artifacts, the same
  holds after any sequence of actions, and it holds in every state reached from the
  empty start.
\<close>

theorem three_artifacts_always:
  "(allThreeArtifacts app \<longrightarrow> allThreeArtifacts (run actions app))
   \<and> allThreeArtifacts (run actions (initApp []))
   \<and> (keepsSessions a \<longrightarrow>
        artifactCounts (sessions (step a app)) = artifactCounts (sessions app))
   \<and> (trim (promptToUse mp app) \<noteq> [] \<and> \<not> isLoading app \<longrightarrow>
        (\<exists>new. sessions (handleSendMessage mp sid t app) = sessions app @ [new]
               \<and> length (artifacts new) = 3))
   \<and> (trim (promptToUse mp app) = [] \<or> isLoading app \<longrightarrow>
        handleSendMessage mp sid t app = app)"
proof -
  have "allThreeArtifacts (initApp [])"
    by (simp add: three_init threeArtifacts_def artifactCounts_def)
  then have a: "allThreeArtifacts (run actions (initApp []))"
    by (rule three_run)
  have b: "trim (promptToUse mp app) \<noteq> [] \<and> \<not> isLoading app \<longrightarrow>
        (\<exists>new. sessions (handleSendMessage mp sid t app) = sessions app @ [new]
               \<and> length (artifacts new) = 3)"
    using handleSendMessage_accepted(1) [of mp app sid t] by simp
  from a b show ?thesis
    using three_run [of app actions] counts_keepsSessions [of a app]
      handleSendMessage_rejected [of mp app sid t]
    by blast
qed

theorem three_artifacts_always_witness:
  "allThreeArtifacts demoApp
   \<and> allThreeArtifacts
        (run [StyleNames ''s1'' [''A'', ''B''], HtmlChunk ''s1'' ''s1_0'' ''<p>'',
              StreamEnd ''s1'' ''s1_0'' ''<p>hi</p>'', GenerationFailed ''s1'' ''s1_1'' ''quota'',
              ApplyVariation ''<b>x</b>'', GenerateImages, ImagesReady 0 0 ''<img>'',
              SetLoading False, SendMessage (Some ''Pricing table'') ''s2'' 2, UndoPressed,
              RedoPressed, PrevItem] demoApp)
   \<and> keepsSessions (StyleNames ''s1'' [''A'', ''B''])
   \<and> artifactCounts (sessions (step (StyleNames ''s1'' [''A'', ''B'']) demoApp))
       = artifactCounts (sessions demoApp)
   \<and> artifactCounts (sessions demoApp) = [3]
   \<and> trim (promptToUse (Some ''Pricing table'') demoApp) \<noteq> [] \<and> \<not> isLoading demoApp
   \<and> (\<exists>new. sessions (handleSendMessage (Some ''Pricing table'') ''s2'' 2 demoApp)
               = sessions demoApp @ [new] \<and> length (artifacts new) = 3)
   \<and> handleSendMessage (Some ''   '') ''s2'' 2 demoApp = demoApp"
proof -
  have a: "allThreeArtifacts demoApp"
    by code_simp
  have b: "artifactCounts (sessions demoApp) = [3]"
    by code_simp
  have c: "trim (promptToUse (Some ''Pricing table'') demoApp) \<noteq> []"
    by code_simp
  have d: "\<not> isLoading demoApp"
    by (simp add: demoApp_def initApp_def)
  have e: "trim (promptToUse (Some ''   '') demoApp) = []"
    by code_simp
  show ?thesis
    using a b c d e
      three_artifacts_always [of demoApp _ "StyleNames ''s1'' [''A'', ''B'']"
         "Some ''Pricing table''" "''s2''" 2]
      three_artifacts_always [of demoApp _ "StyleNames ''s1'' [''A'', ''B'']"
         "Some ''   ''" "''s2''" 2]
    by simp
qed

text \<open>
  C10. Submitting a prompt (one that passes the guard) appends the new session at the end
  of the sessions and sets the current session index to its previous value plus one.
  The new index is the new session's position exactly when the previous index was the
  last one (or \<open>-1\<close> with no sessions); otherwise the session shown is the old one that
  followed the previous current session. The new index is a valid index into the new
  sessions whenever the previous one was \<open>-1\<close> or valid, which it is in every state
  reached from the start by any sequence of actions.
\<close>

theorem send_appends_and_increments:
  "(trim (promptToUse mp app) \<noteq> [] \<and> \<not> isLoading app \<longrightarrow>
      sessions (handleSendMessage mp sid t app)
        = sessions app @ [\<lparr>session_id = sid, prompt = trim (promptToUse mp app),
                            timestamp = t, artifacts = placeholderArtifacts sid\<rparr>]
      \<and> currentSessionIndex (handleSendMessage mp sid t app) = currentSessionIndex app + 1
      \<and> (currentSessionIndex (handleSendMessage mp sid t app) = int (length (sessions app))
           \<longleftrightarrow> currentSessionIndex app = int (length (sessions app)) - 1)
      \<and> (indexValid (sessions app) (currentSessionIndex app) \<longrightarrow>
           indexValid (sessions (handleSendMessage mp sid t app))
             (currentSessionIndex (handleSendMessage mp sid t app))
           \<and> 0 \<le> currentSessionIndex (handleSendMessage mp sid t app))
      \<and> (indexValid (sessions app) (currentSessionIndex app)
           \<and> currentSessionIndex app \<noteq> int (length (sessions app)) - 1 \<longrightarrow>
           at (sessions (handleSendMessage mp sid t app))
              (currentSessionIndex (handleSendMessage mp sid t app))
             = at (sessions app) (currentSessionIndex app + 1)
           \<and> at (sessions app) (currentSessionIndex app + 1) \<noteq> None))
   \<and> allIndexValid (run actions (initApp saved))
   \<and> indexValid (sessions (run actions (initApp saved)))
         (currentSessionIndex (run actions (initApp saved)))"
proof -
  have r: "allIndexValid (run actions (initApp saved))"
    using index_init by (rule index_run)
  then have r': "indexValid (sessions (run actions (initApp saved)))
         (currentSessionIndex (run actions (initApp saved)))"
    by (simp add: allIndexValid_def)
  show ?thesis
  proof (cases "trim (promptToUse mp app) \<noteq> [] \<and> \<not> isLoading app")
    case False
    with r r' show ?thesis by blast
  next
    case True
    note acc = handleSendMessage_accepted(1,2) [of mp app sid t]
    from True acc r r' show ?thesis
      by (auto simp add: indexValid_def at_def nth_append)
  qed
qed

theorem send_appends_and_increments_witness:
  "trim (promptToUse (Some ''c'')
      (run [SendMessage (Some ''a'') ''s1'' 1, SetLoading False,
            SendMessage (Some ''b'') ''s2'' 2, SetLoading False, PrevItem] (initApp []))) \<noteq> []
   \<and> \<not> isLoading
      (run [SendMessage (Some ''a'') ''s1'' 1, SetLoading False,
            SendMessage (Some ''b'') ''s2'' 2, SetLoading False, PrevItem] (initApp []))
   \<and> indexValid
      (sessions (run [SendMessage (Some ''a'') ''s1'' 1, SetLoading False,
            SendMessage (Some ''b'') ''s2'' 2, SetLoading False, PrevItem] (initApp [])))
      (currentSessionIndex (run [SendMessage (Some ''a'') ''s1'' 1, SetLoading False,
            SendMessage (Some ''b'') ''s2'' 2, SetLoading False, PrevItem] (initApp [])))
   \<and> currentSessionIndex (run [SendMessage (Some ''a'') ''s1'' 1, SetLoading False,
            SendMessage (Some ''b'') ''s2'' 2, SetLoading False, PrevItem] (initApp [])) = 0
   \<and> length (sessions (run [SendMessage (Some ''a'') ''s1'' 1, SetLoading False,
            SendMessage (Some ''b'') ''s2'' 2, SetLoading False, PrevItem] (initApp []))) = 2
   \<and> currentSessionIndex (handleSendMessage (Some ''c'') ''s3'' 3
        (run [SendMessage (Some ''a'') ''s1'' 1, SetLoading False,
            SendMessage (Some ''b'') ''s2'' 2, SetLoading False, PrevItem] (initApp []))) = 1
   \<and> length (sessions (handleSendMessage (Some ''c'') ''s3'' 3
        (run [SendMessage (Some ''a'') ''s1'' 1, SetLoading False,
            SendMessage (Some ''b'') ''s2'' 2, SetLoading False, PrevItem] (initApp [])))) = 3"
proof -
  let ?app = "run [SendMessage (Some ''a'') ''s1'' 1, SetLoading False,
            SendMessage (Some ''b'') ''s2'' 2, SetLoading False, PrevItem] (initApp [])"
  have a: "trim (promptToUse (Some ''c'') ?app) \<noteq> []"
    by code_simp
  have b: "\<not> isLoading ?app"
    by code_simp
  have c: "currentSessionIndex ?app = 0"
    by code_simp
  have d: "length (sessions ?app) = 2"
    by code_simp
  from c d have e: "indexValid (sessions ?app) (currentSessionIndex ?app)"
    by (simp add: indexValid_def)
  show ?thesis
    using a b c d e send_appends_and_increments [of "Some ''c''" ?app "''s3''" 3]
    by simp
qed

section \<open>Fault isolation between the three generations\<close>






















section \<open>Snapshots and replace-on-write\<close>

lemma alloc_prefix: "prefix h (fst (alloc h x))"
  by (simp add: alloc_def)

lemma mapArtifactRefs_prefix: "prefix h (fst (mapArtifactRefs g h j rs))"
proof (induction rs arbitrary: h j)
  case Nil
  then show ?case by simp
next
  case (Cons r rs)
  obtain h1 r' where s: "(case readArtifact h r of
               None \<Rightarrow> (h, r)
             | Some art \<Rightarrow>
                 (case g art j of None \<Rightarrow> (h, r) | Some art' \<Rightarrow> alloc h (ArtifactObj art')))
             = (h1, r')"
    by (cases "(case readArtifact h r of
               None \<Rightarrow> (h, r)
             | Some art \<Rightarrow>
                 (case g art j of None \<Rightarrow> (h, r) | Some art' \<Rightarrow> alloc h (ArtifactObj art')))")
  then have p: "prefix h h1"
    by (auto simp add: alloc_def split: option.splits)
  from Cons.IH [of h1 "j + 1"] have "prefix h1 (fst (mapArtifactRefs g h1 (j + 1) rs))" .
  with p have "prefix h (fst (mapArtifactRefs g h1 (j + 1) rs))"
    by (rule prefix_order.trans)
  with s show ?case
    by (simp add: split_def Let_def)
qed

lemma mapArtifactsArray_prefix: "prefix h (fst (mapArtifactsArray g h a))"
proof (cases "atNat h a")
  case None
  then show ?thesis by (simp add: mapArtifactsArray_def)
next
  case (Some x)
  show ?thesis
  proof (cases x)
    case (ArrayObj refs)
    have "prefix h (fst (mapArtifactRefs g h 0 refs))"
      by (rule mapArtifactRefs_prefix)
    moreover have "prefix (fst (mapArtifactRefs g h 0 refs))
        (fst (alloc (fst (mapArtifactRefs g h 0 refs)) (ArrayObj (snd (mapArtifactRefs g h 0 refs)))))"
      by (rule alloc_prefix)
    ultimately have "prefix h
        (fst (alloc (fst (mapArtifactRefs g h 0 refs)) (ArrayObj (snd (mapArtifactRefs g h 0 refs)))))"
      by (rule prefix_order.trans)
    then show ?thesis
      using Some ArrayObj
      by (simp add: mapArtifactsArray_def split_def Let_def)
  qed (use Some in \<open>simp_all add: mapArtifactsArray_def\<close>)
qed

lemma mapSessionRefs_prefix: "prefix h (fst (mapSessionRefs sel h i rs))"
proof (induction rs arbitrary: h i)
  case Nil
  then show ?case by simp
next
  case (Cons r rs)
  let ?one = "(case atNat h r of
               Some (SessionObj sid p ts arr) \<Rightarrow>
                 (case sel sid i of
                    None \<Rightarrow> (h, r)
                  | Some g \<Rightarrow>
                      (let (h0, arr') = mapArtifactsArray g h arr
                       in alloc h0 (SessionObj sid p ts arr')))
             | _ \<Rightarrow> (h, r))"
  obtain h1 r' where s: "?one = (h1, r')" by (cases ?one)
  have p: "prefix h h1"
  proof (cases "atNat h r")
    case None
    with s show ?thesis by simp
  next
    case (Some x)
    show ?thesis
    proof (cases x)
      case (SessionObj sid pr ts arr)
      show ?thesis
      proof (cases "sel sid i")
        case None
        with s Some SessionObj show ?thesis by simp
      next
        case (Some g)
        have "prefix h (fst (mapArtifactsArray g h arr))"
          by (rule mapArtifactsArray_prefix)
        moreover have "prefix (fst (mapArtifactsArray g h arr))
           (fst (alloc (fst (mapArtifactsArray g h arr))
                   (SessionObj sid pr ts (snd (mapArtifactsArray g h arr)))))"
          by (rule alloc_prefix)
        ultimately have "prefix h (fst (alloc (fst (mapArtifactsArray g h arr))
                   (SessionObj sid pr ts (snd (mapArtifactsArray g h arr)))))"
          by (rule prefix_order.trans)
        with s \<open>atNat h r = Some x\<close> SessionObj Some show ?thesis
          by (simp add: split_def Let_def)
      qed
    qed (use s Some in simp_all)
  qed
  from Cons.IH [of h1 "i + 1"] have "prefix h1 (fst (mapSessionRefs sel h1 (i + 1) rs))" .
  with p have "prefix h (fst (mapSessionRefs sel h1 (i + 1) rs))"
    by (rule prefix_order.trans)
  with s show ?case
    by (simp add: split_def Let_def)
qed

lemma setSessionsMap_frame:
  "prefix (heap st) (heap (setSessionsMap sel st))
   \<and> pastEntries (setSessionsMap sel st) = pastEntries st
   \<and> futureEntries (setSessionsMap sel st) = futureEntries st
   \<and> indexCell (setSessionsMap sel st) = indexCell st
   \<and> focusedCell (setSessionsMap sel st) = focusedCell st"
proof (cases "atNat (heap st) (sessionsRef st)")
  case None
  then show ?thesis by (simp add: setSessionsMap_def)
next
  case (Some x)
  show ?thesis
  proof (cases x)
    case (ArrayObj refs)
    have "prefix (heap st) (fst (mapSessionRefs sel (heap st) 0 refs))"
      by (rule mapSessionRefs_prefix)
    then have "prefix (heap st)
       (fst (mapSessionRefs sel (heap st) 0 refs)
          @ [ArrayObj (snd (mapSessionRefs sel (heap st) 0 refs))])"
      by (rule prefix_prefix)
    with Some ArrayObj show ?thesis
      by (simp add: setSessionsMap_def split_def alloc_def Let_def)
  qed (use Some in \<open>simp_all add: setSessionsMap_def\<close>)
qed

lemma storeStep_frame:
  "prefix (heap st) (heap (storeStep op st))
   \<and> prefix (pastEntries st) (pastEntries (storeStep op st))
   \<and> (futureEntries (storeStep op st) = futureEntries st \<or> futureEntries (storeStep op st) = [])"
proof (cases op)
  case (OpApplyVariation newHtml)
  show ?thesis
  proof (cases "focusedCell st")
    case None
    with OpApplyVariation show ?thesis
      by (simp add: applyVariationStore_def pushToHistoryStore_def Let_def)
  next
    case (Some f)
    let ?st1 = "pushToHistoryStore st"
    from setSessionsMap_frame [of ?st1 "selVariation (indexCell ?st1) f newHtml"]
      OpApplyVariation Some
    show ?thesis
      by (simp add: applyVariationStore_def pushToHistoryStore_def Let_def)
  qed
qed (simp_all add: setSessionsMap_frame)

lemma storeRun_frame:
  "prefix (heap st) (heap (storeRun ops st))
   \<and> prefix (pastEntries st) (pastEntries (storeRun ops st))
   \<and> (futureEntries (storeRun ops st) = futureEntries st \<or> futureEntries (storeRun ops st) = [])"
  unfolding storeRun_def
proof (induction ops arbitrary: st)
  case Nil
  then show ?case by simp
next
  case (Cons op ops)
  from storeStep_frame [of st op] Cons.IH [of "storeStep op st"]
  show ?case
    by (auto intro: prefix_order.trans)
qed

lemma atNat_prefix: "prefix h h' \<Longrightarrow> atNat h a = Some x \<Longrightarrow> atNat h' a = Some x"
  by (auto simp add: atNat_def prefix_def nth_append split: if_splits)

lemma readArtifact_prefix:
  "prefix h h' \<Longrightarrow> readArtifact h a = Some v \<Longrightarrow> readArtifact h' a = Some v"
  by (auto simp add: readArtifact_def dest: atNat_prefix split: option.splits Obj.splits)

lemma those_map_mono:
  assumes "\<And>a v. f a = Some v \<Longrightarrow> f' a = Some v"
  shows "those (map f rs) = Some vs \<Longrightarrow> those (map f' rs) = Some vs"
proof (induction rs arbitrary: vs)
  case Nil
  then show ?case by simp
next
  case (Cons r rs)
  then show ?case
    by (auto simp add: assms split: option.splits)
qed

lemma readArtifacts_prefix:
  assumes "prefix h h'" "readArtifacts h a = Some v"
  shows "readArtifacts h' a = Some v"
proof -
  from assms(2) obtain refs where a: "atNat h a = Some (ArrayObj refs)"
    and t: "those (map (readArtifact h) refs) = Some v"
    by (auto simp add: readArtifacts_def split: option.splits Obj.splits)
  from those_map_mono [of "readArtifact h" "readArtifact h'", OF readArtifact_prefix [OF assms(1)] t]
    atNat_prefix [OF assms(1) a]
  show ?thesis by (simp add: readArtifacts_def)
qed

lemma readSession_prefix:
  assumes "prefix h h'" "readSession h a = Some v"
  shows "readSession h' a = Some v"
proof -
  from assms(2) obtain sid p ts arr arts where a: "atNat h a = Some (SessionObj sid p ts arr)"
    and t: "readArtifacts h arr = Some arts"
    and v: "v = \<lparr>session_id = sid, prompt = p, timestamp = ts, artifacts = arts\<rparr>"
    by (auto simp add: readSession_def split: option.splits Obj.splits)
  from readArtifacts_prefix [OF assms(1) t] atNat_prefix [OF assms(1) a] v
  show ?thesis by (simp add: readSession_def)
qed

lemma readSessions_prefix:
  assumes "prefix h h'" "readSessions h a = Some v"
  shows "readSessions h' a = Some v"
proof -
  from assms(2) obtain refs where a: "atNat h a = Some (ArrayObj refs)"
    and t: "those (map (readSession h) refs) = Some v"
    by (auto simp add: readSessions_def split: option.splits Obj.splits)
  from those_map_mono [of "readSession h" "readSession h'", OF readSession_prefix [OF assms(1)] t]
    atNat_prefix [OF assms(1) a]
  show ?thesis by (simp add: readSessions_def)
qed

lemma those_Cons:
  "those (x # xs) = Some vs \<longleftrightarrow> (\<exists>v vs'. x = Some v \<and> those xs = Some vs' \<and> vs = v # vs')"
  by (auto split: option.splits)

lemma readArtifact_alloc: "readArtifact (h @ [ArtifactObj art]) (length h) = Some art"
  by (simp add: readArtifact_def atNat_def)

lemma mapArtifactRefs_read:
  "those (map (readArtifact h) rs) = Some arts \<Longrightarrow>
   those (map (readArtifact (fst (mapArtifactRefs g h j rs))) (snd (mapArtifactRefs g h j rs)))
     = Some (mapArtsFrom g j arts)"
proof (induction rs arbitrary: h j arts)
  case Nil
  then show ?case by (simp add: mapArtsFrom_def)
next
  case (Cons r rs)
  from Cons.prems obtain art arts' where r: "readArtifact h r = Some art"
    and rs: "those (map (readArtifact h) rs) = Some arts'" and a: "arts = art # arts'"
    by (auto split: option.splits)
  define h1 where "h1 = (case g art j of None \<Rightarrow> h | Some art' \<Rightarrow> h @ [ArtifactObj art'])"
  define r' where "r' = (case g art j of None \<Rightarrow> r | Some art' \<Rightarrow> length h)"
  define v where "v = (case g art j of None \<Rightarrow> art | Some art' \<Rightarrow> art')"
  have p: "prefix h h1"
    by (simp add: h1_def split: option.splits)
  have rv: "readArtifact h1 r' = Some v"
    using r by (auto simp add: h1_def r'_def v_def readArtifact_alloc split: option.splits)
  have "those (map (readArtifact h1) rs) = Some arts'"
    using those_map_mono [of "readArtifact h" "readArtifact h1", OF readArtifact_prefix [OF p] rs] .
  from Cons.IH [OF this, of "j + 1"]
  have ih: "those (map (readArtifact (fst (mapArtifactRefs g h1 (j + 1) rs)))
               (snd (mapArtifactRefs g h1 (j + 1) rs)))
            = Some (mapArtsFrom g (j + 1) arts')" .
  have "readArtifact (fst (mapArtifactRefs g h1 (j + 1) rs)) r' = Some v"
    using readArtifact_prefix [OF mapArtifactRefs_prefix rv] .
  moreover have "mapArtifactRefs g h j (r # rs)
        = (fst (mapArtifactRefs g h1 (j + 1) rs), r' # snd (mapArtifactRefs g h1 (j + 1) rs))"
    using r by (simp add: h1_def r'_def alloc_def split_def Let_def split: option.splits)
  moreover have "mapArtsFrom g j arts = v # mapArtsFrom g (j + 1) arts'"
    by (simp add: mapArtsFrom_def a v_def)
  ultimately show ?case
    using ih by simp
qed

lemma readArtifacts_alloc:
  assumes "those (map (readArtifact h) rs) = Some arts"
  shows "readArtifacts (h @ [ArrayObj rs]) (length h) = Some arts"
proof -
  have "prefix h (h @ [ArrayObj rs])" by simp
  from those_map_mono [of "readArtifact h" "readArtifact (h @ [ArrayObj rs])",
      OF readArtifact_prefix [OF this] assms]
  show ?thesis by (simp add: readArtifacts_def atNat_def)
qed

lemma mapArtifactsArray_read:
  assumes "readArtifacts h a = Some arts"
  shows "readArtifacts (fst (mapArtifactsArray g h a)) (snd (mapArtifactsArray g h a))
         = Some (mapArtsFrom g 0 arts)"
proof -
  from assms obtain refs where a: "atNat h a = Some (ArrayObj refs)"
    and t: "those (map (readArtifact h) refs) = Some arts"
    by (auto simp add: readArtifacts_def split: option.splits Obj.splits)
  from readArtifacts_alloc [OF mapArtifactRefs_read [OF t, of g 0]] a
  show ?thesis
    by (simp add: mapArtifactsArray_def alloc_def split_def Let_def)
qed

lemma readSession_alloc:
  assumes "readArtifacts h arr = Some arts"
  shows "readSession (h @ [SessionObj sid p ts arr]) (length h)
         = Some \<lparr>session_id = sid, prompt = p, timestamp = ts, artifacts = arts\<rparr>"
proof -
  have "prefix h (h @ [SessionObj sid p ts arr])" by simp
  from readArtifacts_prefix [OF this assms]
  show ?thesis by (simp add: readSession_def atNat_def)
qed

lemma mapSessionRefs_read:
  "those (map (readSession h) rs) = Some ss \<Longrightarrow>
   those (map (readSession (fst (mapSessionRefs sel h i rs))) (snd (mapSessionRefs sel h i rs)))
     = Some (mapSessionsFrom sel i ss)"
proof (induction rs arbitrary: h i ss)
  case Nil
  then show ?case by (simp add: mapSessionsFrom_def)
next
  case (Cons r rs)
  from Cons.prems obtain s ss' where r: "readSession h r = Some s"
    and rs: "those (map (readSession h) rs) = Some ss'" and a: "ss = s # ss'"
    by (auto split: option.splits)
  from r obtain sid p ts arr arts where o: "atNat h r = Some (SessionObj sid p ts arr)"
    and ra: "readArtifacts h arr = Some arts"
    and s: "s = \<lparr>session_id = sid, prompt = p, timestamp = ts, artifacts = arts\<rparr>"
    by (auto simp add: readSession_def split: option.splits Obj.splits)
  define one where "one = (case sel sid i of
                    None \<Rightarrow> (h, r)
                  | Some g \<Rightarrow>
                      (let (h0, arr') = mapArtifactsArray g h arr
                       in alloc h0 (SessionObj sid p ts arr')))"
  define v where "v = (case sel sid i of
                     Some g \<Rightarrow> s\<lparr>artifacts := mapArtsFrom g 0 (artifacts s)\<rparr>
                   | None \<Rightarrow> s)"
  have p: "prefix h (fst one)"
  proof (cases "sel sid i")
    case None
    then show ?thesis by (simp add: one_def)
  next
    case (Some g)
    have "prefix h (fst (mapArtifactsArray g h arr))" by (rule mapArtifactsArray_prefix)
    then have "prefix h (fst (mapArtifactsArray g h arr)
                 @ [SessionObj sid p ts (snd (mapArtifactsArray g h arr))])"
      by (rule prefix_prefix)
    with Some show ?thesis by (simp add: one_def alloc_def split_def Let_def)
  qed
  have rv: "readSession (fst one) (snd one) = Some v"
  proof (cases "sel sid i")
    case None
    with r show ?thesis by (simp add: one_def v_def)
  next
    case (Some g)
    from readSession_alloc [OF mapArtifactsArray_read [OF ra, of g], of sid p ts] Some s
    show ?thesis by (simp add: one_def v_def alloc_def split_def Let_def)
  qed
  have "those (map (readSession (fst one)) rs) = Some ss'"
    using those_map_mono [of "readSession h" "readSession (fst one)",
        OF readSession_prefix [OF p] rs] .
  from Cons.IH [OF this, of "i + 1"]
  have ih: "those (map (readSession (fst (mapSessionRefs sel (fst one) (i + 1) rs)))
               (snd (mapSessionRefs sel (fst one) (i + 1) rs)))
            = Some (mapSessionsFrom sel (i + 1) ss')" .
  have "readSession (fst (mapSessionRefs sel (fst one) (i + 1) rs)) (snd one) = Some v"
    using readSession_prefix [OF mapSessionRefs_prefix rv] .
  moreover have "mapSessionRefs sel h i (r # rs)
        = (fst (mapSessionRefs sel (fst one) (i + 1) rs),
           snd one # snd (mapSessionRefs sel (fst one) (i + 1) rs))"
    using o by (simp add: one_def split_def Let_def)
  moreover have "mapSessionsFrom sel i ss = v # mapSessionsFrom sel (i + 1) ss'"
    by (simp add: mapSessionsFrom_def a v_def s split: option.splits)
  ultimately show ?case
    using ih by simp
qed

lemma setSessionsMap_read:
  assumes "readSessions (heap st) (sessionsRef st) = Some ss"
  shows "readSessions (heap (setSessionsMap sel st)) (sessionsRef (setSessionsMap sel st))
         = Some (mapSessionsFrom sel 0 ss)"
proof -
  from assms obtain refs where a: "atNat (heap st) (sessionsRef st) = Some (ArrayObj refs)"
    and t: "those (map (readSession (heap st)) refs) = Some ss"
    by (auto simp add: readSessions_def split: option.splits Obj.splits)
  let ?m = "mapSessionRefs sel (heap st) 0 refs"
  have "prefix (fst ?m) (fst ?m @ [ArrayObj (snd ?m)])" by simp
  from those_map_mono [of "readSession (fst ?m)" "readSession (fst ?m @ [ArrayObj (snd ?m)])",
      OF readSession_prefix [OF this] mapSessionRefs_read [OF t, of sel 0]]
  have "readSessions (fst ?m @ [ArrayObj (snd ?m)]) (length (fst ?m))
        = Some (mapSessionsFrom sel 0 ss)"
    by (simp add: readSessions_def atNat_def)
  with a show ?thesis
    by (simp add: setSessionsMap_def alloc_def split_def Let_def)
qed

lemma map_enumerate_ignore: "map (\<lambda>(k, x). f x) (enumerate n xs) = map f xs"
  by (induction xs arbitrary: n) simp_all

lemma mapArtsFrom_by_id:
  "mapArtsFrom (\<lambda>art j. if artifact_id art = aid then Some (f art) else None) 0 arts
   = map (\<lambda>art. if artifact_id art = aid then f art else art) arts"
proof -
  have "(\<lambda>(k :: nat, art). case (if artifact_id art = aid then Some (f art) else None) of
                     Some art' \<Rightarrow> art' | None \<Rightarrow> art)
        = (\<lambda>(k, art). if artifact_id art = aid then f art else art)"
    by (rule ext) (simp add: split_def)
  then show ?thesis
    by (simp add: mapArtsFrom_def map_enumerate_ignore)
qed

lemma mapArtsFrom_by_index:
  "mapArtsFrom (\<lambda>art j. if j = focused then Some (f art) else None) 0 arts
   = mapIndexed (\<lambda>art j. if j = focused then f art else art) arts"
proof -
  have "(\<lambda>(k :: nat, art). case (if k = focused then Some (f art) else None) of
                     Some art' \<Rightarrow> art' | None \<Rightarrow> art)
        = (\<lambda>(k, art :: Artifact). if k = focused then f art else art)"
    by (rule ext) (simp add: split_def)
  then show ?thesis
    by (simp add: mapArtsFrom_def mapIndexed_def)
qed

lemma mapArtsFrom_all:
  "mapArtsFrom (\<lambda>art j. Some (f art j)) 0 arts = mapIndexed f arts"
  by (simp add: mapArtsFrom_def mapIndexed_def)

lemma mapSessionsFrom_by_id:
  "mapSessionsFrom (\<lambda>sid i. if sid = sessionId then Some g else None) 0 ss
   = map (\<lambda>sess. if session_id sess = sessionId
                 then sess\<lparr>artifacts := mapArtsFrom g 0 (artifacts sess)\<rparr> else sess) ss"
proof -
  have "(\<lambda>(k :: nat, s). case (if session_id s = sessionId then Some g else None) of
                     Some g \<Rightarrow> s\<lparr>artifacts := mapArtsFrom g 0 (artifacts s)\<rparr>
                   | None \<Rightarrow> s)
        = (\<lambda>(k, sess). if session_id sess = sessionId
                 then sess\<lparr>artifacts := mapArtsFrom g 0 (artifacts sess)\<rparr> else sess)"
    by (rule ext) (simp add: split_def)
  then show ?thesis
    by (simp add: mapSessionsFrom_def map_enumerate_ignore)
qed

lemma mapSessionsFrom_by_index:
  "mapSessionsFrom (\<lambda>sid i. if int i = idx then Some g else None) 0 ss
   = mapIndexed (\<lambda>sess i. if int i = idx
                 then sess\<lparr>artifacts := mapArtsFrom g 0 (artifacts sess)\<rparr> else sess) ss"
proof -
  have "(\<lambda>(k :: nat, s). case (if int k = idx then Some g else None) of
                     Some g \<Rightarrow> s\<lparr>artifacts := mapArtsFrom g 0 (artifacts s)\<rparr>
                   | None \<Rightarrow> s)
        = (\<lambda>(k, sess :: Session). if int k = idx
                 then sess\<lparr>artifacts := mapArtsFrom g 0 (artifacts sess)\<rparr> else sess)"
    by (rule ext) (simp add: split_def)
  then show ?thesis
    by (simp add: mapSessionsFrom_def mapIndexed_def)
qed

lemma sel_values:
  "mapSessionsFrom (selHtmlChunk sid aid acc) 0 ss = setArtifactHtml sid aid acc ss"
  "mapSessionsFrom (selFinish sid aid fin) 0 ss = finishArtifact sid aid fin ss"
  "mapSessionsFrom (selFail sid aid msg) 0 ss = failArtifact sid aid msg ss"
  "mapSessionsFrom (selImages idx foc newHtml) 0 ss = setImagesHtml idx foc newHtml ss"
  "mapSessionsFrom (selVariation idx foc newHtml) 0 ss
     = mapIndexed (\<lambda>sess i.
              if int i = idx
              then sess\<lparr>artifacts :=
                     mapIndexed (\<lambda>art j.
                         if j = foc then art\<lparr>html := newHtml, status := Complete\<rparr>
                         else art) (artifacts sess)\<rparr>
              else sess) ss"
  unfolding selHtmlChunk_def selFinish_def selFail_def selImages_def selVariation_def
    setArtifactHtml_def finishArtifact_def failArtifact_def setImagesHtml_def
  by (simp_all add: mapSessionsFrom_by_id mapSessionsFrom_by_index mapArtsFrom_by_id
        mapArtsFrom_by_index cong: if_cong)

lemma sel_styles:
  "mapSessionsFrom (selStyleNames sid names) 0 ss = setStyleNames sid names ss"
proof -
  have "selStyleNames sid names
        = (\<lambda>s i. if s = sid
                  then Some (\<lambda>art j. Some (art\<lparr>styleName := atNat names j\<rparr>)) else None)"
    by (rule ext)+ (simp add: selStyleNames_def)
  then show ?thesis
    by (simp add: mapSessionsFrom_by_id mapArtsFrom_all setStyleNames_def cong: if_cong)
qed

lemma storeStep_read:
  assumes "readSessions (heap st) (sessionsRef st) = Some ss"
  shows "readSessions (heap (storeStep op st)) (sessionsRef (storeStep op st))
         = Some (valueStep op (indexCell st) (focusedCell st) ss)"
proof (cases op)
  case (OpApplyVariation newHtml)
  show ?thesis
  proof (cases "focusedCell st")
    case None
    with OpApplyVariation assms show ?thesis
      by (simp add: applyVariationStore_def pushToHistoryStore_def Let_def)
  next
    case (Some f)
    let ?st1 = "pushToHistoryStore st"
    from assms have "readSessions (heap ?st1) (sessionsRef ?st1) = Some ss"
      by (simp add: pushToHistoryStore_def)
    from setSessionsMap_read [OF this, of "selVariation (indexCell ?st1) f newHtml"]
      OpApplyVariation Some
    show ?thesis
      by (simp add: applyVariationStore_def Let_def sel_values pushToHistoryStore_def)
  qed
qed (simp_all add: setSessionsMap_read [OF assms] sel_values sel_styles)

lemma storeStep_cells:
  "indexCell (storeStep op st) = indexCell st \<and> focusedCell (storeStep op st) = focusedCell st"
  by (cases op)
     (simp_all add: setSessionsMap_frame applyVariationStore_def pushToHistoryStore_def Let_def
        split: option.splits)

lemma storeRun_read:
  "readSessions (heap st) (sessionsRef st) = Some ss \<Longrightarrow>
   readSessions (heap (storeRun ops st)) (sessionsRef (storeRun ops st))
     = Some (fold (\<lambda>op. valueStep op (indexCell st) (focusedCell st)) ops ss)"
  unfolding storeRun_def
proof (induction ops arbitrary: st ss)
  case Nil
  then show ?case by simp
next
  case (Cons op ops)
  from Cons.IH [OF storeStep_read [OF Cons.prems, of op]] storeStep_cells [of op st]
  show ?case by simp
qed

text \<open>
  C3, as the code has it. \<open>pushToHistory\<close> copies nothing: the entry it appends holds
  the reference that the \<open>sessions\<close> cell holds, next to the index. What keeps the
  entries intact is that every operation on sessions is replace-on-write. For every
  sequence of html updates, stream ends, failures, style-name rewrites, image updates
  and applied variations: no object of the heap is overwritten (the old heap is a prefix
  of the new one); the past entries stay where they are, with the record of an applied
  variation appended after them; the future entries stay as they are or are dropped by
  such a record; and the sessions that the reference of any entry stands for read
  exactly as before. Meanwhile the live sessions read as the value-level updaters say.
\<close>

theorem snapshots_unchanged:
  "last (pastEntries (pushToHistoryStore st)) = (sessionsRef st, indexCell st)
   \<and> heap (pushToHistoryStore st) = heap st
   \<and> prefix (heap st) (heap (storeRun ops st))
   \<and> prefix (pastEntries st) (pastEntries (storeRun ops st))
   \<and> (futureEntries (storeRun ops st) = futureEntries st
        \<or> futureEntries (storeRun ops st) = [])
   \<and> (\<forall>e \<in> set (pastEntries st @ futureEntries st). \<forall>v.
         readSessions (heap st) (fst e) = Some v \<longrightarrow>
         readSessions (heap (storeRun ops st)) (fst e) = Some v)
   \<and> (\<forall>ss. readSessions (heap st) (sessionsRef st) = Some ss \<longrightarrow>
         readSessions (heap (storeRun ops st)) (sessionsRef (storeRun ops st))
           = Some (fold (\<lambda>op. valueStep op (indexCell st) (focusedCell st)) ops ss))"
proof -
  note f = storeRun_frame [of st ops]
  from f have p: "prefix (heap st) (heap (storeRun ops st))" by simp
  have r: "\<forall>e \<in> set (pastEntries st @ futureEntries st). \<forall>v.
         readSessions (heap st) (fst e) = Some v \<longrightarrow>
         readSessions (heap (storeRun ops st)) (fst e) = Some v"
    using readSessions_prefix [OF p] by blast
  have l: "last (pastEntries (pushToHistoryStore st)) = (sessionsRef st, indexCell st)
           \<and> heap (pushToHistoryStore st) = heap st"
    by (simp add: pushToHistoryStore_def)
  from f r l storeRun_read [of st _ ops] show ?thesis
    by blast
qed

theorem snapshots_unchanged_witness:
  "(5, 0) \<in> set (pastEntries (pushToHistoryStore demoStore)
                    @ futureEntries (pushToHistoryStore demoStore))
   \<and> readSessions (heap (pushToHistoryStore demoStore)) 5 = Some [demoSession]
   \<and> readSessions (heap (storeRun demoOps (pushToHistoryStore demoStore))) 5
       = Some [demoSession]
   \<and> sessionsRef (pushToHistoryStore demoStore) = 5
   \<and> readSessions (heap (storeRun demoOps (pushToHistoryStore demoStore)))
         (sessionsRef (storeRun demoOps (pushToHistoryStore demoStore)))
       = Some (fold (\<lambda>op. valueStep op 0 (Some 0)) demoOps [demoSession])"
proof -
  let ?st = "pushToHistoryStore demoStore"
  have a: "(5, 0) \<in> set (pastEntries ?st @ futureEntries ?st)"
    by (simp add: pushToHistoryStore_def demoStore_def)
  have b: "readSessions (heap ?st) 5 = Some [demoSession]"
    by code_simp
  have c: "sessionsRef ?st = 5" "indexCell ?st = 0" "focusedCell ?st = Some 0"
    by (simp_all add: pushToHistoryStore_def demoStore_def)
  from snapshots_unchanged [of ?st demoOps] a b c show ?thesis
    by fastforce
qed

text \<open>
  C3, where it calls the snapshot an independent deep copy, does not hold: the record
  allocates nothing, and the entry it pushes holds the very address that the live
  \<open>sessions\<close> cell holds.
\<close>

theorem snapshot_is_shared_reference:
  "\<not> independentCopy (heap (pushToHistoryStore demoStore))
        (fst (last (pastEntries (pushToHistoryStore demoStore))))
        (sessionsRef (pushToHistoryStore demoStore))
   \<and> heap (pushToHistoryStore demoStore) = heap demoStore
   \<and> fst (last (pastEntries (pushToHistoryStore demoStore)))
       = sessionsRef (pushToHistoryStore demoStore)"
  by (simp add: pushToHistoryStore_def demoStore_def independentCopy_def reachable_def)

end
